theory Spec2Isabelle
  imports
    Complex_Main
    "HOL-Library.AList"
    "HOL-Library.Char_ord"
    "HOL-Library.List_Lexorder"
    "HOL-Library.Multiset"
    "HOL-Library.Word"
begin

section \<open>JavaScript values as the fingerprinting engine sees them\<close>

text \<open>
  The engine never reads the content of a scalar, only its runtime category, so a scalar
  is its category. Every object (plain object, array, class instance, Date, Map, typed
  array, ...) is a reference into a heap. The heap keeps, for an array, its elements, and
  for every other object its own enumerable string-keyed properties in property order,
  which is all that \<open>Object.keys\<close> and \<open>obj[key]\<close> show of it. A function is not
  traversed (\<open>typeof\<close> is \<open>"function"\<close>), so it is a scalar category here.

  The objects of the model are data: listing their keys and reading their properties runs
  no code of theirs. A \<open>Proxy\<close> and an object with an accessor property, whose inspection
  can throw, are not values of the model.

  The object graph is fixed: the identity caches of the engine are keyed by reference and
  are never invalidated by a change of the object, so the development is about runs in
  which the analysed objects keep their shape.
\<close>

datatype jsval =
    JNumber | JString | JBoolean | JBigint | JNull | JUndefined | JSymbol | JFunction
  | JRef nat

datatype heapobj =
    Object "(string \<times> jsval) list"
  | Array "jsval list"

type_synonym heap = "heapobj list"

text \<open>
  An address outside the heap does not occur in a run; the model reads it as an object
  without own enumerable properties.
\<close>

definition deref :: "heap \<Rightarrow> nat \<Rightarrow> heapobj" where
  "deref h a = (if a < length h then h ! a else Object [])"

fun typeof :: "jsval \<Rightarrow> string" where
  "typeof JNumber = ''number''"
| "typeof JString = ''string''"
| "typeof JBoolean = ''boolean''"
| "typeof JBigint = ''bigint''"
| "typeof JNull = ''object''"
| "typeof JUndefined = ''undefined''"
| "typeof JSymbol = ''symbol''"
| "typeof JFunction = ''function''"
| "typeof (JRef a) = ''object''"

fun isArray :: "heap \<Rightarrow> jsval \<Rightarrow> bool" where
  "isArray h (JRef a) = (case deref h a of Array xs \<Rightarrow> True | Object ps \<Rightarrow> False)"
| "isArray h v = False"

definition isObject :: "heap \<Rightarrow> jsval \<Rightarrow> bool" where
  "isObject h x = (typeof x = ''object'' \<and> x \<noteq> JNull \<and> \<not> isArray h x)"

section \<open>Decimal text of integers\<close>

definition digit_char :: "nat \<Rightarrow> char" where
  "digit_char d = ''0123456789'' ! d"

fun string_of_nat :: "nat \<Rightarrow> string" where
  "string_of_nat n =
     (if n < 10 then [digit_char n]
      else string_of_nat (n div 10) @ [digit_char (n mod 10)])"

declare string_of_nat.simps [simp del]

text \<open>\<open>BigInt.prototype.toString()\<close> and the template-literal rendering of a bigint.\<close>

definition bigint_toString :: "int \<Rightarrow> string" where
  "bigint_toString i =
     (if i < 0 then ''-'' @ string_of_nat (nat (- i)) else string_of_nat (nat i))"

fun join :: "string \<Rightarrow> string list \<Rightarrow> string" where
  "join sep [] = []"
| "join sep [x] = x"
| "join sep (x # y # ys) = x @ sep @ join sep (y # ys)"

text \<open>\<open>String.prototype.split\<close> with a one-character separator.\<close>

fun split :: "char \<Rightarrow> string \<Rightarrow> string list" where
  "split c [] = [[]]"
| "split c (x # xs) =
     (if x = c then [] # split c xs
      else (case split c xs of [] \<Rightarrow> [[x]] | w # ws \<Rightarrow> (x # w) # ws))"

text \<open>\<open>Object.keys\<close>: the own enumerable keys; for an array, its indices.\<close>

fun Object_keys :: "heapobj \<Rightarrow> string list" where
  "Object_keys (Object ps) = map fst ps"
| "Object_keys (Array xs) = map string_of_nat [0..<length xs]"

text \<open>\<open>objValue[key]\<close>: a missing property reads as \<open>undefined\<close>.\<close>

definition getProp :: "(string \<times> jsval) list \<Rightarrow> string \<Rightarrow> jsval" where
  "getProp ps key = (case map_of ps key of None \<Rightarrow> JUndefined | Some v \<Rightarrow> v)"

section \<open>Process-wide state\<close>

definition TYPE_BITS :: "(string \<times> int) list" where
  "TYPE_BITS =
     [(''root'', 0), (''number'', 1), (''string'', 2), (''boolean'', 4), (''bigint'', 8),
      (''null'', 16), (''undefined'', 32), (''symbol'', 64), (''object'', 128),
      (''array'', 256)]"

text \<open>\<open>TYPE_BITS[t] || BigInt(0)\<close>: a missing entry and the entry \<open>0n\<close> are both falsy.\<close>

definition typeBit :: "string \<Rightarrow> int" where
  "typeBit t = (case map_of TYPE_BITS t of None \<Rightarrow> 0 | Some b \<Rightarrow> if b = 0 then 0 else b)"

record StructureIdConfig =
  newIdOnCollision :: "bool option"

record StructureInfo =
  id_info :: string
  levels :: nat
  collisionCount :: int

text \<open>
  The two \<open>Map\<close>s are association lists in insertion order (\<open>Map.set\<close> is
  \<open>AList.update\<close>: an existing key keeps its place, a new one goes last); the three
  \<open>WeakMap\<close>s are maps from addresses.

  Collision counts are JavaScript numbers. The functions that compute with a count
  (\<open>?? 0\<close>, \<open>+ 1\<close>, \<open>BigInt(count)\<close>) are modelled on integer counts, the type \<open>state\<close>,
  which is exact for the counts a run can reach by counting. The functions that only
  store or copy counts (reset, export, import) are modelled for counts of any type
  \<open>'n\<close>, so that a snapshot can carry any number, integer or not.
\<close>

record 'n process_state =
  GLOBAL_KEY_MAP :: "(string \<times> int) list"
  STRUCTURE_HASH_COUNTER :: "(string \<times> 'n) list"
  OBJECT_ID_CACHE :: "nat \<rightharpoonup> string"
  OBJECT_SIGNATURE_CACHE :: "nat \<rightharpoonup> string"
  STRUCTURE_INFO_CACHE :: "nat \<rightharpoonup> StructureInfo"
  globalConfig :: StructureIdConfig

type_synonym state = "int process_state"

definition initialState :: "'n process_state" where
  "initialState =
     \<lparr>GLOBAL_KEY_MAP = [], STRUCTURE_HASH_COUNTER = [], OBJECT_ID_CACHE = Map.empty,
      OBJECT_SIGNATURE_CACHE = Map.empty, STRUCTURE_INFO_CACHE = Map.empty,
      globalConfig = \<lparr>newIdOnCollision = Some False\<rparr>\<rparr>"

text \<open>
  The hash module is not among the sources. Its \<open>xxHash32\<close> returns the 32-bit hash as
  eight hexadecimal digits, which \<open>getBit\<close> reads back with \<open>BigInt("0x" + ...)\<close>; the
  model takes the hash as a parameter \<open>xxHash32\<close> that returns the 32-bit word itself.
\<close>

definition getBit :: "(string \<Rightarrow> 32 word) \<Rightarrow> string \<Rightarrow> (string \<times> int) list
    \<Rightarrow> int \<times> (string \<times> int) list" where
  "getBit xxHash32 key km =
     (case map_of km key of
        None \<Rightarrow> (let deterministicBit = uint (xxHash32 key)
                 in (deterministicBit, AList.update key deterministicBit km))
      | Some b \<Rightarrow> (b, km))"

definition setStructureIdConfig :: "StructureIdConfig \<Rightarrow> state \<Rightarrow> state" where
  "setStructureIdConfig config st = st\<lparr>globalConfig := config\<rparr>"

definition getStructureIdConfig :: "state \<Rightarrow> StructureIdConfig" where
  "getStructureIdConfig st = globalConfig st"

section \<open>The traversal\<close>

text \<open>
  What one top-level call owns and mutates while it walks the value: the per-level
  accumulators, the cycle tracker, and the process-wide key bits it adds to.
\<close>

record traversal =
  levelHashes :: "(nat \<times> int) list"
  objectMap :: "nat \<rightharpoonup> string"
  keyBits :: "(string \<times> int) list"

fun getType :: "heap \<Rightarrow> jsval \<Rightarrow> string" where
  "getType h JNull = ''null''"
| "getType h JUndefined = ''undefined''"
| "getType h v = (if isArray h v then ''array'' else typeof v)"

definition getObjectSignature :: "heapobj \<Rightarrow> string list \<Rightarrow> string" where
  "getObjectSignature obj path =
     (case obj of
        Object ps \<Rightarrow> join ''.'' path @ ''.{'' @ join '','' (sort (Object_keys obj)) @ ''}''
      | Array xs \<Rightarrow> join ''.'' path @ ''.['' @ string_of_nat (length xs) @ '']'')"

text \<open>\<open>if (!levelHashes[level]) levelHashes[level] = 1n << level\<close>: unset and \<open>0n\<close> are falsy.\<close>

definition seedLevel :: "nat \<Rightarrow> (nat \<times> int) list \<Rightarrow> (nat \<times> int) list" where
  "seedLevel level lh =
     (case map_of lh level of
        None \<Rightarrow> AList.update level (2 ^ level) lh
      | Some v \<Rightarrow> if v = 0 then AList.update level (2 ^ level) lh else lh)"

text \<open>
  \<open>levelHashes[level] += x\<close>. The level has been seeded by the enclosing call whenever
  this runs, so the accumulator is set; the default is never read.
\<close>

definition addLevel :: "nat \<Rightarrow> int \<Rightarrow> (nat \<times> int) list \<Rightarrow> (nat \<times> int) list" where
  "addLevel level x lh =
     AList.update level ((case map_of lh level of None \<Rightarrow> 0 | Some v \<Rightarrow> v) + x) lh"

definition addHash :: "nat \<Rightarrow> int \<Rightarrow> traversal \<Rightarrow> traversal" where
  "addHash level x t = t\<lparr>levelHashes := addLevel level x (levelHashes t)\<rparr>"

text \<open>
  The two loops of \<open>processStructure\<close>, over the sorted keys of an object and over the
  indices of an array; \<open>recur\<close> is the recursive call.
\<close>

fun objectLoop :: "(jsval \<Rightarrow> nat \<Rightarrow> string list \<Rightarrow> traversal \<Rightarrow> traversal option)
    \<Rightarrow> (string \<Rightarrow> 32 word) \<Rightarrow> heap \<Rightarrow> (string \<times> jsval) list \<Rightarrow> nat \<Rightarrow> string list
    \<Rightarrow> string list \<Rightarrow> int \<Rightarrow> traversal \<Rightarrow> traversal option" where
  "objectLoop recur xxHash32 h objValue level path [] multiplier t = Some t"
| "objectLoop recur xxHash32 h objValue level path (key # keys) multiplier t =
     (let propType = getType h (getProp objValue key);
          (keyBit, km) = getBit xxHash32 key (keyBits t);
          t1 = addHash level (keyBit * multiplier) (t\<lparr>keyBits := km\<rparr>);
          t2 = addHash level (typeBit propType * multiplier) t1
      in case recur (getProp objValue key) (level + 1) (path @ [key]) t2 of
           None \<Rightarrow> None
         | Some t3 \<Rightarrow> objectLoop recur xxHash32 h objValue level path keys (multiplier + 1) t3)"

fun arrayLoop :: "(jsval \<Rightarrow> nat \<Rightarrow> string list \<Rightarrow> traversal \<Rightarrow> traversal option)
    \<Rightarrow> (string \<Rightarrow> 32 word) \<Rightarrow> heap \<Rightarrow> nat \<Rightarrow> string list
    \<Rightarrow> jsval list \<Rightarrow> nat \<Rightarrow> int \<Rightarrow> traversal \<Rightarrow> traversal option" where
  "arrayLoop recur xxHash32 h level path [] i multiplier t = Some t"
| "arrayLoop recur xxHash32 h level path (item # items) i multiplier t =
     (let itemType = getType h item;
          (indexBit, km) = getBit xxHash32 (''['' @ string_of_nat i @ '']'') (keyBits t);
          t1 = addHash level (indexBit * multiplier) (t\<lparr>keyBits := km\<rparr>);
          t2 = addHash level (typeBit itemType * multiplier) t1
      in case recur item (level + 1) (path @ [''['' @ string_of_nat i @ '']'']) t2 of
           None \<Rightarrow> None
         | Some t3 \<Rightarrow> arrayLoop recur xxHash32 h level path items (i + 1) (multiplier + 1) t3)"

text \<open>
  \<open>processStructure\<close>. The recursion follows references of a graph that may be cyclic, so
  it carries fuel: one unit per nested call. \<open>None\<close> is a run that the fuel did not cover.
\<close>

fun processStructure :: "(string \<Rightarrow> 32 word) \<Rightarrow> heap \<Rightarrow> nat \<Rightarrow> jsval \<Rightarrow> nat \<Rightarrow> string list
    \<Rightarrow> traversal \<Rightarrow> traversal option" where
  "processStructure xxHash32 h 0 val level path t = None"
| "processStructure xxHash32 h (Suc fuel) val level path t =
     (let t0 = t\<lparr>levelHashes := seedLevel level (levelHashes t)\<rparr>;
          type = getType h val;
          t1 = addHash level (typeBit type) t0
      in if type \<noteq> ''object'' \<and> type \<noteq> ''array'' then Some t1
         else (case val of
            JRef a \<Rightarrow>
              (let objSig = getObjectSignature (deref h a) path
               in case objectMap t1 a of
                    Some circularPath \<Rightarrow>
                      (let (b, km) = getBit xxHash32 (''circular:'' @ circularPath) (keyBits t1)
                       in Some (addHash level b (t1\<lparr>keyBits := km\<rparr>)))
                  | None \<Rightarrow>
                      (let t2 = t1\<lparr>objectMap := (objectMap t1)(a \<mapsto> objSig)\<rparr>;
                           (objTypeBit, km) = getBit xxHash32 (''type:'' @ type) (keyBits t2);
                           t3 = addHash level objTypeBit (t2\<lparr>keyBits := km\<rparr>);
                           isRootLevel = (level = 0);
                           isEmpty = (case deref h a of
                                        Object ps \<Rightarrow> length (Object_keys (Object ps)) = 0
                                      | Array xs \<Rightarrow> length xs = 0)
                       in if \<not> isRootLevel \<or> \<not> isEmpty then
                            (case deref h a of
                               Object ps \<Rightarrow>
                                 objectLoop (\<lambda>v l p s. processStructure xxHash32 h fuel v l p s)
                                   xxHash32 h ps level path (sort (Object_keys (Object ps))) 1 t3
                             | Array xs \<Rightarrow>
                                 (let (lengthBit, km') =
                                        getBit xxHash32 (''length:'' @ string_of_nat (length xs))
                                          (keyBits t3);
                                      t4 = addHash level lengthBit (t3\<lparr>keyBits := km'\<rparr>)
                                  in arrayLoop (\<lambda>v l p s. processStructure xxHash32 h fuel v l p s)
                                       xxHash32 h level path xs 0 1 t4))
                          else Some t3))
          | _ \<Rightarrow> Some t1))"

section \<open>Identifiers\<close>

text \<open>
  \<open>Object.entries(levelHashes)\<close>: the keys are array indices, which the engine lists in
  ascending order, and the source sorts them by number again.
\<close>

definition entries :: "(nat \<times> int) list \<Rightarrow> (nat \<times> int) list" where
  "entries lh = sort_key fst lh"

definition levelPart :: "nat \<times> int \<Rightarrow> string" where
  "levelPart e = ''L'' @ string_of_nat (fst e) @ '':'' @ bigint_toString (snd e)"

text \<open>\<open>effectiveConfig?.newIdOnCollision\<close> as a condition: only \<open>true\<close> is truthy.\<close>

definition truthy :: "bool option \<Rightarrow> bool" where
  "truthy b = (b = Some True)"

definition scalarId :: "jsval \<Rightarrow> string" where
  "scalarId obj =
     ''L0:'' @ bigint_toString (typeBit (typeof obj)) @ ''-L1:''
       @ bigint_toString (typeBit (typeof obj))"

definition generateStructureId :: "(string \<Rightarrow> 32 word) \<Rightarrow> heap \<Rightarrow> nat \<Rightarrow> jsval
    \<Rightarrow> StructureIdConfig option \<Rightarrow> state \<Rightarrow> (string \<times> state) option" where
  "generateStructureId xxHash32 h fuel obj config st =
     (let emptyObj = (isObject h obj \<and>
                       (case obj of JRef a \<Rightarrow> length (Object_keys (deref h a)) = 0
                                  | _ \<Rightarrow> False));
          emptyArr = (isArray h obj \<and>
                       (case obj of JRef a \<Rightarrow>
                            (case deref h a of Array xs \<Rightarrow> length xs = 0 | Object ps \<Rightarrow> False)
                                  | _ \<Rightarrow> False))
      in if emptyObj then Some (''{}'', st)
         else if emptyArr then Some (''[]'', st)
         else
           let effectiveConfig = (case config of None \<Rightarrow> globalConfig st | Some c \<Rightarrow> c)
           in if typeof obj \<noteq> ''object'' \<or> obj = JNull then Some (scalarId obj, st)
              else (case obj of
                 JRef a \<Rightarrow>
                   if \<not> truthy (newIdOnCollision effectiveConfig) \<and> OBJECT_ID_CACHE st a \<noteq> None
                   then Some (the (OBJECT_ID_CACHE st a), st)
                   else
                     (case processStructure xxHash32 h fuel obj 0 []
                             \<lparr>levelHashes = [], objectMap = Map.empty,
                              keyBits = GLOBAL_KEY_MAP st\<rparr> of
                        None \<Rightarrow> None
                      | Some t \<Rightarrow>
                         (let structureLevels =
                                map levelPart (filter (\<lambda>e. fst e > 0) (entries (levelHashes t)));
                              structureSignature = join ''-'' structureLevels;
                              st1 = st\<lparr>GLOBAL_KEY_MAP := keyBits t,
                                       OBJECT_SIGNATURE_CACHE :=
                                         (OBJECT_SIGNATURE_CACHE st)(a \<mapsto> structureSignature)\<rparr>;
                              currentCount =
                                (case map_of (STRUCTURE_HASH_COUNTER st1) structureSignature of
                                   None \<Rightarrow> 0 | Some c \<Rightarrow> c);
                              lh = (if truthy (newIdOnCollision effectiveConfig)
                                    then AList.update 0 currentCount (levelHashes t)
                                    else levelHashes t);
                              st2 = (if truthy (newIdOnCollision effectiveConfig)
                                     then st1\<lparr>STRUCTURE_HASH_COUNTER :=
                                            AList.update structureSignature (currentCount + 1)
                                              (STRUCTURE_HASH_COUNTER st1)\<rparr>
                                     else st1);
                              idParts = map levelPart (entries lh);
                              finalId = join ''-'' idParts;
                              st3 = (if \<not> truthy (newIdOnCollision effectiveConfig)
                                     then st2\<lparr>OBJECT_ID_CACHE := (OBJECT_ID_CACHE st2)(a \<mapsto> finalId)\<rparr>
                                     else st2);
                              st4 = st3\<lparr>STRUCTURE_INFO_CACHE := (STRUCTURE_INFO_CACHE st3)(a := None)\<rparr>
                          in Some (finalId, st4)))
               | _ \<Rightarrow> Some (scalarId obj, st)))"

definition calculateIdLevels :: "string \<Rightarrow> nat" where
  "calculateIdLevels ident = length (split CHR ''-'' ident)"

text \<open>\<open>id.split("-").slice(1).join("-")\<close>\<close>

definition stripL0 :: "string \<Rightarrow> string" where
  "stripL0 ident = join ''-'' (drop 1 (split CHR ''-'' ident))"

definition getStructureSignature :: "(string \<Rightarrow> 32 word) \<Rightarrow> heap \<Rightarrow> nat \<Rightarrow> jsval \<Rightarrow> state
    \<Rightarrow> (string \<times> state) option" where
  "getStructureSignature xxHash32 h fuel obj st =
     (if typeof obj \<noteq> ''object'' \<or> obj = JNull then Some (''type:'' @ typeof obj, st)
      else (case obj of
         JRef a \<Rightarrow>
           (case OBJECT_SIGNATURE_CACHE st a of
              Some s \<Rightarrow> Some (s, st)
            | None \<Rightarrow>
               (case generateStructureId xxHash32 h fuel obj
                       (Some \<lparr>newIdOnCollision = Some False\<rparr>) st of
                  None \<Rightarrow> None
                | Some (tempId, st1) \<Rightarrow>
                   (let signature = stripL0 tempId
                    in Some (signature,
                         st1\<lparr>OBJECT_SIGNATURE_CACHE :=
                               (OBJECT_SIGNATURE_CACHE st1)(a \<mapsto> signature)\<rparr>))))
       | _ \<Rightarrow> Some (''type:'' @ typeof obj, st)))"

definition registerStructure :: "(string \<Rightarrow> 32 word) \<Rightarrow> heap \<Rightarrow> nat \<Rightarrow> jsval \<Rightarrow> int \<Rightarrow> state
    \<Rightarrow> state option" where
  "registerStructure xxHash32 h fuel obj cnt st =
     (case getStructureSignature xxHash32 h fuel obj st of
        None \<Rightarrow> None
      | Some (signature, st1) \<Rightarrow>
          Some (st1\<lparr>STRUCTURE_HASH_COUNTER :=
                      AList.update signature cnt (STRUCTURE_HASH_COUNTER st1)\<rparr>))"

fun registerStructures :: "(string \<Rightarrow> 32 word) \<Rightarrow> heap \<Rightarrow> nat \<Rightarrow> (jsval \<times> int) list \<Rightarrow> state
    \<Rightarrow> state option" where
  "registerStructures xxHash32 h fuel [] st = Some st"
| "registerStructures xxHash32 h fuel ((structure, cnt) # registrations) st =
     (case registerStructure xxHash32 h fuel structure cnt st of
        None \<Rightarrow> None
      | Some st1 \<Rightarrow> registerStructures xxHash32 h fuel registrations st1)"

fun registerStructureSignatures :: "(string \<times> int) list \<Rightarrow> state \<Rightarrow> state" where
  "registerStructureSignatures [] st = st"
| "registerStructureSignatures ((signature, cnt) # signatures) st =
     registerStructureSignatures signatures
       (st\<lparr>STRUCTURE_HASH_COUNTER := AList.update signature cnt (STRUCTURE_HASH_COUNTER st)\<rparr>)"

definition getStructureInfo :: "(string \<Rightarrow> 32 word) \<Rightarrow> heap \<Rightarrow> nat \<Rightarrow> jsval
    \<Rightarrow> StructureIdConfig option \<Rightarrow> state \<Rightarrow> (StructureInfo \<times> state) option" where
  "getStructureInfo xxHash32 h fuel obj config st =
     (let effectiveConfig = (case config of None \<Rightarrow> globalConfig st | Some c \<Rightarrow> c)
      in case obj of
        JRef a \<Rightarrow>
          (case STRUCTURE_INFO_CACHE st a of
             Some cached \<Rightarrow> Some (cached, st)
           | None \<Rightarrow>
              (case (case OBJECT_SIGNATURE_CACHE st a of
                       Some s \<Rightarrow> Some (s, st)
                     | None \<Rightarrow>
                        (case generateStructureId xxHash32 h fuel obj
                                (Some \<lparr>newIdOnCollision = Some False\<rparr>) st of
                           None \<Rightarrow> None
                         | Some (i, st1) \<Rightarrow> Some (stripL0 i, st1))) of
                 None \<Rightarrow> None
               | Some (structureSignature, st1) \<Rightarrow>
                  (let cnt = (case map_of (STRUCTURE_HASH_COUNTER st1) structureSignature of
                                  None \<Rightarrow> 0 | Some c \<Rightarrow> c)
                   in case (if truthy (newIdOnCollision effectiveConfig)
                            then Some (join ''-'' [''L0:'' @ bigint_toString cnt,
                                                   structureSignature], st1)
                            else (case OBJECT_ID_CACHE st1 a of
                                    Some i \<Rightarrow> Some (i, st1)
                                  | None \<Rightarrow>
                                      generateStructureId xxHash32 h fuel obj
                                        (Some \<lparr>newIdOnCollision = Some False\<rparr>) st1)) of
                        None \<Rightarrow> None
                      | Some (i, st2) \<Rightarrow>
                         (let result = \<lparr>id_info = i, levels = calculateIdLevels i,
                                        collisionCount = cnt\<rparr>
                          in Some (result,
                               st2\<lparr>STRUCTURE_INFO_CACHE :=
                                     (STRUCTURE_INFO_CACHE st2)(a \<mapsto> result)\<rparr>)))))
      | _ \<Rightarrow>
          (case generateStructureId xxHash32 h fuel obj
                  (Some \<lparr>newIdOnCollision = Some False\<rparr>) st of
             None \<Rightarrow> None
           | Some (i, st1) \<Rightarrow>
               Some (\<lparr>id_info = i, levels = calculateIdLevels i, collisionCount = 0\<rparr>, st1)))"

definition resetState :: "'n process_state \<Rightarrow> 'n process_state" where
  "resetState st =
     st\<lparr>GLOBAL_KEY_MAP := [], STRUCTURE_HASH_COUNTER := [], OBJECT_ID_CACHE := Map.empty,
        OBJECT_SIGNATURE_CACHE := Map.empty, STRUCTURE_INFO_CACHE := Map.empty\<rparr>"

section \<open>Export and import of the naming state\<close>

text \<open>
  The strings of the model are lists of characters with codes below 256. The text that
  \<open>BigInt\<close> parses is kept as a list of UTF-16 code units, because \<open>BigInt\<close> looks at
  every unit of it: a snapshot may hold any JavaScript string as a value of \<open>keyMap\<close>.
\<close>

type_synonym utf16 = "16 word list"

definition utf16_of :: "string \<Rightarrow> utf16" where
  "utf16_of s = map of_char s"

text \<open>
  A snapshot: the two plain objects as the lists of their own enumerable properties in
  the order in which \<open>Object.entries\<close> lists them.
\<close>

record 'n StructureState =
  keyMap :: "(string \<times> utf16) list"
  collisionCounters :: "(string \<times> 'n) list"

text \<open>
  \<open>BigInt(string)\<close>: white space (\<open>StrWhiteSpaceChar\<close>: the white space and the line
  terminators of the language) is trimmed; the empty string is \<open>0n\<close>; then a decimal
  literal with an optional sign, or an unsigned literal with the prefix \<open>0x\<close>, \<open>0o\<close> or
  \<open>0b\<close>; anything else throws a \<open>SyntaxError\<close>.
\<close>

datatype error = SyntaxError

definition isWhiteSpace :: "16 word \<Rightarrow> bool" where
  "isWhiteSpace u =
     (unat u \<in> {0x9, 0xA, 0xB, 0xC, 0xD, 0x20, 0xA0, 0x1680, 0x2028, 0x2029, 0x202F,
                 0x205F, 0x3000, 0xFEFF}
      \<or> (0x2000 \<le> unat u \<and> unat u \<le> 0x200A))"

definition trim :: "utf16 \<Rightarrow> utf16" where
  "trim s = rev (dropWhile isWhiteSpace (rev (dropWhile isWhiteSpace s)))"

definition digitVal :: "16 word \<Rightarrow> nat option" where
  "digitVal u =
     (let n = unat u
      in if 48 \<le> n \<and> n \<le> 57 then Some (n - 48)
         else if 97 \<le> n \<and> n \<le> 122 then Some (n - 87)
         else if 65 \<le> n \<and> n \<le> 90 then Some (n - 55)
         else None)"

fun parseDigits :: "nat \<Rightarrow> utf16 \<Rightarrow> nat \<Rightarrow> nat option" where
  "parseDigits base [] acc = Some acc"
| "parseDigits base (c # cs) acc =
     (case digitVal c of
        None \<Rightarrow> None
      | Some d \<Rightarrow> if d < base then parseDigits base cs (acc * base + d) else None)"

definition parseLiteral :: "nat \<Rightarrow> utf16 \<Rightarrow> nat option" where
  "parseLiteral base ds = (if ds = [] then None else parseDigits base ds 0)"

definition BigInt_of_string :: "utf16 \<Rightarrow> int option" where
  "BigInt_of_string s =
     (let t = trim s
      in if t = [] then Some 0
         else if take 2 t \<in> {utf16_of ''0x'', utf16_of ''0X''}
           then map_option int (parseLiteral 16 (drop 2 t))
         else if take 2 t \<in> {utf16_of ''0o'', utf16_of ''0O''}
           then map_option int (parseLiteral 8 (drop 2 t))
         else if take 2 t \<in> {utf16_of ''0b'', utf16_of ''0B''}
           then map_option int (parseLiteral 2 (drop 2 t))
         else if hd t = of_char CHR ''-'' then map_option (\<lambda>n. - int n) (parseLiteral 10 (tl t))
         else if hd t = of_char CHR ''+'' then map_option int (parseLiteral 10 (tl t))
         else map_option int (parseLiteral 10 t))"

text \<open>
  A property key is an array index when it is the canonical decimal text of a number
  below \<open>2\<^sup>3\<^sup>2 - 1\<close>. An ordinary object lists its array-index keys first, in ascending
  numeric order, and then its other string keys in the order of their creation.
\<close>

definition arrayIndex :: "string \<Rightarrow> nat option" where
  "arrayIndex key =
     (case parseLiteral 10 (utf16_of key) of
        None \<Rightarrow> None
      | Some n \<Rightarrow> if string_of_nat n = key \<and> n < 2 ^ 32 - 1 then Some n else None)"

fun insertIndex :: "nat \<Rightarrow> string \<Rightarrow> 'v \<Rightarrow> (string \<times> 'v) list \<Rightarrow> (string \<times> 'v) list" where
  "insertIndex n key v [] = [(key, v)]"
| "insertIndex n key v ((k, w) # rest) =
     (case arrayIndex k of
        None \<Rightarrow> (key, v) # (k, w) # rest
      | Some m \<Rightarrow> if m < n then (k, w) # insertIndex n key v rest
                  else (key, v) # (k, w) # rest)"

text \<open>
  \<open>obj[key] = value\<close> on a plain object literal, with a string or a number as the value:
  the key \<open>__proto__\<close> reaches the prototype setter, which ignores a value that is not
  an object, so no property is created. Every other key is set as an own property: an
  existing property keeps its place, a new one is listed where its key belongs.
\<close>

definition setProp :: "string \<Rightarrow> 'v \<Rightarrow> (string \<times> 'v) list \<Rightarrow> (string \<times> 'v) list" where
  "setProp key v obj =
     (if key = ''__proto__'' then obj
      else if key \<in> fst ` set obj then AList.update key v obj
      else (case arrayIndex key of
              None \<Rightarrow> obj @ [(key, v)]
            | Some n \<Rightarrow> insertIndex n key v obj))"

definition exportStructureState :: "'n process_state \<Rightarrow> 'n StructureState" where
  "exportStructureState st =
     \<lparr>keyMap = foldl (\<lambda>km (key, v). setProp key (utf16_of (bigint_toString v)) km) []
                 (GLOBAL_KEY_MAP st),
      collisionCounters = foldl (\<lambda>cc (signature, cnt). setProp signature cnt cc) []
                 (STRUCTURE_HASH_COUNTER st)\<rparr>"

text \<open>The three loops of \<open>importStructureState\<close>; a throw leaves the state as it then is.\<close>

fun importKeyMap :: "(string \<times> utf16) list \<Rightarrow> 'n process_state
    \<Rightarrow> (error + unit) \<times> 'n process_state" where
  "importKeyMap [] st = (Inr (), st)"
| "importKeyMap ((key, valueStr) # rest) st =
     (case BigInt_of_string valueStr of
        None \<Rightarrow> (Inl SyntaxError, st)
      | Some b \<Rightarrow>
          importKeyMap rest (st\<lparr>GLOBAL_KEY_MAP := AList.update key b (GLOBAL_KEY_MAP st)\<rparr>))"

fun importCounters :: "(string \<times> 'n) list \<Rightarrow> 'n process_state \<Rightarrow> 'n process_state" where
  "importCounters [] st = st"
| "importCounters ((signature, cnt) # rest) st =
     importCounters rest
       (st\<lparr>STRUCTURE_HASH_COUNTER := AList.update signature cnt (STRUCTURE_HASH_COUNTER st)\<rparr>)"

fun maxBitLoop :: "utf16 list \<Rightarrow> int \<Rightarrow> error + int" where
  "maxBitLoop [] maxBit = Inr maxBit"
| "maxBitLoop (bitStr # rest) maxBit =
     (case BigInt_of_string bitStr of
        None \<Rightarrow> Inl SyntaxError
      | Some b \<Rightarrow> maxBitLoop rest (if b > maxBit then b else maxBit))"

definition importStructureState :: "'n StructureState \<Rightarrow> 'n process_state
    \<Rightarrow> (error + unit) \<times> 'n process_state" where
  "importStructureState snapshot st =
     (case importKeyMap (keyMap snapshot) (resetState st) of
        (Inl e, st1) \<Rightarrow> (Inl e, st1)
      | (Inr u, st1) \<Rightarrow>
          (let st2 = importCounters (collisionCounters snapshot) st1
           in case maxBitLoop (map snd (keyMap snapshot)) 0 of
                Inl e \<Rightarrow> (Inl e, st2)
              | Inr maxBit \<Rightarrow> (Inr (), st2)))"

section \<open>Notions used to state the properties\<close>

text \<open>A record without keys or a sequence without elements.\<close>

definition emptyContainer :: "heap \<Rightarrow> nat \<Rightarrow> bool" where
  "emptyContainer h a = (case deref h a of Object ps \<Rightarrow> ps = [] | Array xs \<Rightarrow> xs = [])"

text \<open>The steps of the traversal, named so that its equations can be read.\<close>


definition enter :: "heap \<Rightarrow> jsval \<Rightarrow> nat \<Rightarrow> traversal \<Rightarrow> traversal" where
  "enter h v level t =
     addHash level (typeBit (getType h v)) (t\<lparr>levelHashes := seedLevel level (levelHashes t)\<rparr>)"

definition bitStep :: "(string \<Rightarrow> 32 word) \<Rightarrow> nat \<Rightarrow> string \<Rightarrow> int \<Rightarrow> traversal \<Rightarrow> traversal" where
  "bitStep xx level key m t =
     addHash level (fst (getBit xx key (keyBits t)) * m)
       (t\<lparr>keyBits := snd (getBit xx key (keyBits t))\<rparr>)"

definition childStep :: "(string \<Rightarrow> 32 word) \<Rightarrow> heap \<Rightarrow> nat \<Rightarrow> string \<Rightarrow> jsval \<Rightarrow> int
    \<Rightarrow> traversal \<Rightarrow> traversal" where
  "childStep xx h level key c m t =
     addHash level (typeBit (getType h c) * m) (bitStep xx level key m t)"

definition register :: "heap \<Rightarrow> nat \<Rightarrow> string list \<Rightarrow> traversal \<Rightarrow> traversal" where
  "register h a path t = t\<lparr>objectMap := (objectMap t)(a \<mapsto> getObjectSignature (deref h a) path)\<rparr>"


definition stepInvariant :: "(string \<Rightarrow> 32 word) \<Rightarrow> heap \<Rightarrow> (traversal \<Rightarrow> traversal \<Rightarrow> bool) \<Rightarrow> bool" where
  "stepInvariant xx h R \<longleftrightarrow>
     (\<forall>t. R t t) \<and> (\<forall>a b c. R a b \<longrightarrow> R b c \<longrightarrow> R a c) \<and>
     (\<forall>v l t. R t (enter h v l t)) \<and>
     (\<forall>l key m t. R t (bitStep xx l key m t)) \<and>
     (\<forall>l key c m t. R t (childStep xx h l key c m t)) \<and>
     (\<forall>a p t. objectMap t a = None \<longrightarrow> R t (register h a p t))"

text \<open>The addresses of the heap that the cycle tracker has not seen.\<close>


definition unvisited :: "heap \<Rightarrow> (nat \<rightharpoonup> string) \<Rightarrow> nat set" where
  "unvisited h om = {a. a < length h \<and> om a = None}"

text \<open>The parts of \<open>generateStructureId\<close> around the traversal, named.\<close>

definition startTraversal :: "state \<Rightarrow> traversal" where
  "startTraversal st = \<lparr>levelHashes = [], objectMap = Map.empty, keyBits = GLOBAL_KEY_MAP st\<rparr>"

definition effective :: "StructureIdConfig option \<Rightarrow> state \<Rightarrow> bool" where
  "effective config st =
     truthy (newIdOnCollision (case config of None \<Rightarrow> globalConfig st | Some c \<Rightarrow> c))"

definition signatureOf :: "(nat \<times> int) list \<Rightarrow> string" where
  "signatureOf lh = join ''-'' (map levelPart (filter (\<lambda>e. fst e > 0) (entries lh)))"

definition idOf :: "(nat \<times> int) list \<Rightarrow> string" where
  "idOf lh = join ''-'' (map levelPart (entries lh))"

definition counterOf :: "(string \<times> int) list \<Rightarrow> string \<Rightarrow> int" where
  "counterOf counters signature = (case map_of counters signature of None \<Rightarrow> 0 | Some c \<Rightarrow> c)"

definition finish :: "nat \<Rightarrow> bool \<Rightarrow> state \<Rightarrow> traversal \<Rightarrow> string \<times> state" where
  "finish a disambiguate st t =
     (let signature = signatureOf (levelHashes t);
          cnt = counterOf (STRUCTURE_HASH_COUNTER st) signature
      in if disambiguate then
           (idOf (AList.update 0 cnt (levelHashes t)),
            st\<lparr>GLOBAL_KEY_MAP := keyBits t,
               OBJECT_SIGNATURE_CACHE := (OBJECT_SIGNATURE_CACHE st)(a \<mapsto> signature),
               STRUCTURE_HASH_COUNTER :=
                 AList.update signature (cnt + 1) (STRUCTURE_HASH_COUNTER st),
               STRUCTURE_INFO_CACHE := (STRUCTURE_INFO_CACHE st)(a := None)\<rparr>)
         else
           (idOf (levelHashes t),
            st\<lparr>GLOBAL_KEY_MAP := keyBits t,
               OBJECT_SIGNATURE_CACHE := (OBJECT_SIGNATURE_CACHE st)(a \<mapsto> signature),
               OBJECT_ID_CACHE := (OBJECT_ID_CACHE st)(a \<mapsto> idOf (levelHashes t)),
               STRUCTURE_INFO_CACHE := (STRUCTURE_INFO_CACHE st)(a := None)\<rparr>))"

text \<open>
  Concrete values for the examples: a hash that is constantly 0, a heap with the one record
  \<open>{a: 1}\<close>, the state after \<open>getStructureInfo\<close> has cached the bundle of that
  record, and the state after \<open>registerStructure(record, 5)\<close> has then been called.
\<close>


definition xxZero :: "string \<Rightarrow> 32 word" where "xxZero k = 0"
definition oneKeyHeap :: heap where "oneKeyHeap = [Object [(''a'', JNumber)]]"

definition infoCachedState :: state where
  "infoCachedState = snd (the (getStructureInfo xxZero oneKeyHeap 2 (JRef 0) None initialState))"

definition registeredState :: state where
  "registeredState = the (registerStructure xxZero oneKeyHeap 2 (JRef 0) 5 infoCachedState)"

text \<open>
  Two object graphs of the same shape. A map \<open>f\<close> of addresses carries the objects of a
  set \<open>D\<close>, closed under the references they hold, of the heap \<open>h1\<close> to objects of the
  heap \<open>h2\<close>: a record goes to a record with the same keys (in any insertion order) whose
  children correspond key by key, a sequence to a sequence whose elements correspond index
  by index, a scalar to a scalar of the same category, and different objects go to
  different objects.
\<close>

fun renameVal :: "(nat \<Rightarrow> nat) \<Rightarrow> jsval \<Rightarrow> jsval" where
  "renameVal f (JRef a) = JRef (f a)"
| "renameVal f v = v"

definition valIn :: "nat set \<Rightarrow> jsval \<Rightarrow> bool" where
  "valIn D v = (case v of JRef a \<Rightarrow> a \<in> D | _ \<Rightarrow> True)"

fun sameShapeObj :: "(nat \<Rightarrow> nat) \<Rightarrow> nat set \<Rightarrow> heapobj \<Rightarrow> heapobj \<Rightarrow> bool" where
  "sameShapeObj f D (Object ps) (Object qs) =
     (sort (map fst ps) = sort (map fst qs) \<and>
      (\<forall>k \<in> set (map fst ps).
         valIn D (getProp ps k) \<and> renameVal f (getProp ps k) = getProp qs k))"
| "sameShapeObj f D (Array xs) (Array ys) =
     ((\<forall>x \<in> set xs. valIn D x) \<and> ys = map (renameVal f) xs)"
| "sameShapeObj f D (Object ps) (Array ys) = False"
| "sameShapeObj f D (Array xs) (Object qs) = False"

definition sameShape :: "(nat \<Rightarrow> nat) \<Rightarrow> nat set \<Rightarrow> heap \<Rightarrow> heap \<Rightarrow> bool" where
  "sameShape f D h1 h2 =
     (inj_on f D \<and> (\<forall>a \<in> D. sameShapeObj f D (deref h1 a) (deref h2 (f a))))"

text \<open>
  A relation between the states of two traversals that every step of the traversal
  keeps, when the same step is taken on both sides.
\<close>

definition simulation :: "(string \<Rightarrow> 32 word) \<Rightarrow> (nat \<Rightarrow> nat) \<Rightarrow> nat set
    \<Rightarrow> (traversal \<Rightarrow> traversal \<Rightarrow> bool) \<Rightarrow> bool" where
  "simulation xx f D S \<longleftrightarrow>
     (\<forall>t1 t2 a. S t1 t2 \<longrightarrow> a \<in> D \<longrightarrow> objectMap t2 (f a) = objectMap t1 a) \<and>
     (\<forall>t1 t2 l x. S t1 t2 \<longrightarrow>
        S (addHash l x (t1\<lparr>levelHashes := seedLevel l (levelHashes t1)\<rparr>))
          (addHash l x (t2\<lparr>levelHashes := seedLevel l (levelHashes t2)\<rparr>))) \<and>
     (\<forall>t1 t2 l x. S t1 t2 \<longrightarrow> S (addHash l x t1) (addHash l x t2)) \<and>
     (\<forall>t1 t2 l key m. S t1 t2 \<longrightarrow> S (bitStep xx l key m t1) (bitStep xx l key m t2)) \<and>
     (\<forall>t1 t2 a s. S t1 t2 \<longrightarrow> a \<in> D \<longrightarrow> objectMap t1 a = None \<longrightarrow>
        S (t1\<lparr>objectMap := (objectMap t1)(a \<mapsto> s)\<rparr>)
          (t2\<lparr>objectMap := (objectMap t2)(f a \<mapsto> s)\<rparr>))"

text \<open>The bit that \<open>getBit\<close> answers for a key under a key map.\<close>

definition bitOf :: "(string \<Rightarrow> 32 word) \<Rightarrow> (string \<times> int) list \<Rightarrow> string \<Rightarrow> int" where
  "bitOf xx km key = (case map_of km key of None \<Rightarrow> uint (xx key) | Some b \<Rightarrow> b)"

text \<open>Relations between two traversals of one heap that differ in their key maps.\<close>


definition keyRel :: "(string \<Rightarrow> 32 word) \<Rightarrow> string set \<Rightarrow> traversal \<Rightarrow> traversal \<Rightarrow> bool" where
  "keyRel xx K t1 t2 \<longleftrightarrow>
     objectMap t2 = objectMap t1 \<and>
     (\<forall>k \<in> K. bitOf xx (keyBits t1) k = bitOf xx (keyBits t2) k) \<and>
     (fst ` set (keyBits t1) \<subseteq> K \<longrightarrow> levelHashes t1 = levelHashes t2)"

definition keysRel :: "string set \<Rightarrow> traversal \<Rightarrow> traversal \<Rightarrow> bool" where
  "keysRel K t1 t2 \<longleftrightarrow>
     objectMap t2 = objectMap t1 \<and>
     fst ` set (keyBits t2) = K \<union> fst ` set (keyBits t1)"

text \<open>The levels of the accumulator map only grow, and stay distinct.\<close>

definition levelsRel :: "traversal \<Rightarrow> traversal \<Rightarrow> bool" where
  "levelsRel t t' \<longleftrightarrow>
     fst ` set (levelHashes t) \<subseteq> fst ` set (levelHashes t') \<and>
     (distinct (map fst (levelHashes t)) \<longrightarrow> distinct (map fst (levelHashes t')))"

text \<open>
  Successive calls of \<open>generateStructureId\<close>, each in the state the one before left, and
  the structural signature that a traversal from a given key map computes for a value.
\<close>

fun successiveIds :: "(string \<Rightarrow> 32 word) \<Rightarrow> heap \<Rightarrow> nat \<Rightarrow> jsval list
    \<Rightarrow> StructureIdConfig option \<Rightarrow> state \<Rightarrow> (string list \<times> state) option" where
  "successiveIds xxHash32 h fuel [] config st = Some ([], st)"
| "successiveIds xxHash32 h fuel (v # vs) config st =
     (case generateStructureId xxHash32 h fuel v config st of
        None \<Rightarrow> None
      | Some (i, st1) \<Rightarrow>
          (case successiveIds xxHash32 h fuel vs config st1 of
             None \<Rightarrow> None
           | Some (is, st2) \<Rightarrow> Some (i # is, st2)))"

definition traversalSignature :: "(string \<Rightarrow> 32 word) \<Rightarrow> heap \<Rightarrow> nat \<Rightarrow> jsval
    \<Rightarrow> (string \<times> int) list \<Rightarrow> string option" where
  "traversalSignature xxHash32 h fuel v km =
     map_option (\<lambda>t. signatureOf (levelHashes t))
       (processStructure xxHash32 h fuel v 0 []
          \<lparr>levelHashes = [], objectMap = Map.empty, keyBits = km\<rparr>)"

definition twoRecordHeap :: heap where
  "twoRecordHeap = [Object [(''a'', JNumber)], Object [(''a'', JNumber)]]"

text \<open>
  The states a process can be in, over a fixed object graph: the initial state and every
  state that a public operation, called with any arguments, leaves.
\<close>

inductive reachable :: "(string \<Rightarrow> 32 word) \<Rightarrow> heap \<Rightarrow> state \<Rightarrow> bool"
  for xxHash32 :: "string \<Rightarrow> 32 word" and h :: heap where
  initial: "reachable xxHash32 h initialState"
| generate: "reachable xxHash32 h st \<Longrightarrow>
     generateStructureId xxHash32 h fuel obj config st = Some (i, st') \<Longrightarrow>
     reachable xxHash32 h st'"
| signature: "reachable xxHash32 h st \<Longrightarrow>
     getStructureSignature xxHash32 h fuel obj st = Some (s, st') \<Longrightarrow>
     reachable xxHash32 h st'"
| register: "reachable xxHash32 h st \<Longrightarrow>
     registerStructure xxHash32 h fuel obj cnt st = Some st' \<Longrightarrow>
     reachable xxHash32 h st'"
| registerMany: "reachable xxHash32 h st \<Longrightarrow>
     registerStructures xxHash32 h fuel registrations st = Some st' \<Longrightarrow>
     reachable xxHash32 h st'"
| registerSignatures: "reachable xxHash32 h st \<Longrightarrow>
     reachable xxHash32 h (registerStructureSignatures signatures st)"
| info: "reachable xxHash32 h st \<Longrightarrow>
     getStructureInfo xxHash32 h fuel obj config st = Some (r, st') \<Longrightarrow>
     reachable xxHash32 h st'"
| reset: "reachable xxHash32 h st \<Longrightarrow> reachable xxHash32 h (resetState st)"
| importState: "reachable xxHash32 h st \<Longrightarrow>
     importStructureState snapshot st = (r, st') \<Longrightarrow>
     reachable xxHash32 h st'"
| configure: "reachable xxHash32 h st \<Longrightarrow> reachable xxHash32 h (setStructureIdConfig config st)"

text \<open>
  What holds in every reachable state: the two maps have one entry per key, and a cached
  identifier is the one a traversal of the object computes from the current key map.
\<close>

definition stateInvariant :: "(string \<Rightarrow> 32 word) \<Rightarrow> heap \<Rightarrow> state \<Rightarrow> bool" where
  "stateInvariant xx h st \<longleftrightarrow>
     distinct (map fst (GLOBAL_KEY_MAP st)) \<and>
     distinct (map fst (STRUCTURE_HASH_COUNTER st)) \<and>
     (\<forall>a i. OBJECT_ID_CACHE st a = Some i \<longrightarrow>
        (\<exists>n t. processStructure xx h n (JRef a) 0 [] (startTraversal st) = Some t \<and>
               i = idOf (levelHashes t)))"

text \<open>
  The keys that the traversal of a value asks \<open>getBit\<close> for: the keys of the key map
  after a traversal that starts from the empty key map.
\<close>

definition usedKeys :: "(string \<Rightarrow> 32 word) \<Rightarrow> heap \<Rightarrow> nat \<Rightarrow> jsval \<Rightarrow> string set" where
  "usedKeys xxHash32 h fuel v =
     (case processStructure xxHash32 h fuel v 0 []
             \<lparr>levelHashes = [], objectMap = Map.empty, keyBits = []\<rparr> of
        None \<Rightarrow> {}
      | Some t \<Rightarrow> fst ` set (keyBits t))"

text \<open>
  A heap with the records \<open>{a: x, b: x}\<close> and \<open>{a: {c: 1}, b: {c: 1}}\<close>, where \<open>x\<close> is
  \<open>{c: 1}\<close>, and a heap with the records \<open>{a: 1, b: "x"}\<close> and \<open>{b: "x", a: 1}\<close>.
\<close>

definition sharedChildHeap :: heap where
  "sharedChildHeap =
     [Object [(''a'', JRef 2), (''b'', JRef 2)],
      Object [(''a'', JRef 3), (''b'', JRef 4)],
      Object [(''c'', JNumber)], Object [(''c'', JNumber)], Object [(''c'', JNumber)]]"

definition reorderedHeap :: heap where
  "reorderedHeap = [Object [(''a'', JNumber), (''b'', JString)],
                    Object [(''b'', JString), (''a'', JNumber)]]"

text \<open>A heap with the records \<open>{s: Symbol()}\<close> and \<open>{s: function}\<close>.\<close>

definition symbolRecordHeap :: heap where
  "symbolRecordHeap = [Object [(''s'', JSymbol)], Object [(''s'', JFunction)]]"

text \<open>
  Two states name alike when they give every key other than \<open>__proto__\<close> the same bit,
  every signature other than \<open>__proto__\<close> the same count, and have the same global
  configuration.
\<close>

definition sameNaming :: "(string \<Rightarrow> 32 word) \<Rightarrow> state \<Rightarrow> state \<Rightarrow> bool" where
  "sameNaming xx st st' \<longleftrightarrow>
     (\<forall>k. k \<noteq> ''__proto__'' \<longrightarrow>
        bitOf xx (GLOBAL_KEY_MAP st') k = bitOf xx (GLOBAL_KEY_MAP st) k) \<and>
     (\<forall>s. s \<noteq> ''__proto__'' \<longrightarrow>
        counterOf (STRUCTURE_HASH_COUNTER st') s = counterOf (STRUCTURE_HASH_COUNTER st) s) \<and>
     globalConfig st' = globalConfig st"

text \<open>
  The state after \<open>generateStructureId\<close> has cached the identifier of the record
  \<open>{a: 1}\<close>, and the heap in which the property of that record has become a string.
\<close>

definition cachedState :: state where
  "cachedState = snd (the (generateStructureId xxZero oneKeyHeap 2 (JRef 0) None initialState))"

definition retypedHeap :: heap where "retypedHeap = [Object [(''a'', JString)]]"

section \<open>Basic facts\<close>

lemma typeBit_values:
  "typeBit ''number'' = 1" "typeBit ''string'' = 2" "typeBit ''boolean'' = 4"
  "typeBit ''bigint'' = 8" "typeBit ''null'' = 16" "typeBit ''undefined'' = 32"
  "typeBit ''symbol'' = 64" "typeBit ''object'' = 128" "typeBit ''array'' = 256"
  "typeBit ''function'' = 0"
  by (simp_all add: typeBit_def TYPE_BITS_def)

lemma string_of_small:
  "string_of_nat 0 = ''0''" "string_of_nat 1 = ''1''" "string_of_nat 2 = ''2''"
  "string_of_nat 4 = ''4''" "string_of_nat 8 = ''8''" "string_of_nat 16 = ''16''"
  "string_of_nat 32 = ''32''" "string_of_nat 64 = ''64''" "string_of_nat 128 = ''128''"
  by (simp_all add: string_of_nat.simps digit_char_def)

lemma truthy_simps [simp]:
  "truthy None = False" "truthy (Some False) = False" "truthy (Some True) = True"
  by (simp_all add: truthy_def)

section \<open>Scalars at the root\<close>

text \<open>
  A root that is neither a record nor a sequence, other than \<open>null\<close>, gets the two equal
  segments of its discriminant; \<open>function\<close> has no entry in \<open>TYPE_BITS\<close> and gets 0.
\<close>

lemma generateStructureId_scalar:
  "obj \<noteq> JNull \<Longrightarrow> (\<forall>a. obj \<noteq> JRef a) \<Longrightarrow>
   generateStructureId xxHash32 h fuel obj config st =
     Some (''L0:'' @ bigint_toString (typeBit (getType h obj)) @ ''-L1:''
             @ bigint_toString (typeBit (getType h obj)), st)"
  by (cases obj) (simp_all add: generateStructureId_def isObject_def scalarId_def)

text \<open>
  C4. For the root \<open>null\<close> the code reads \<open>TYPE_BITS[typeof obj]\<close>, and \<open>typeof null\<close> is
  \<open>"object"\<close>: the identifier is \<open>L0:128-L1:128\<close>, built from the discriminant of a
  record and not from the discriminant 16 that \<open>TYPE_BITS\<close> keeps for \<open>null\<close> and that a
  nested \<open>null\<close> contributes through \<open>getType\<close>.
\<close>

theorem generateStructureId_null:
  "generateStructureId xxHash32 h fuel JNull config st = Some (''L0:128-L1:128'', st)"
  by (simp add: generateStructureId_def isObject_def scalarId_def typeBit_values
      bigint_toString_def string_of_small)

theorem generateStructureId_null_witness:
  "generateStructureId (\<lambda>k. 0) [] 0 JNull None initialState
     = Some (''L0:128-L1:128'', initialState)"
  by (rule generateStructureId_null)

text \<open>
  C10. \<open>getStructureSignature(null)\<close> is the literal \<open>"type:object"\<close>, in every state and
  without any traversal: the state is returned unchanged.
\<close>

theorem getStructureSignature_null:
  "getStructureSignature xxHash32 h fuel JNull st = Some (''type:object'', st)"
  by (simp add: getStructureSignature_def)

theorem getStructureSignature_null_witness:
  "getStructureSignature (\<lambda>k. 0) [] 0 JNull initialState = Some (''type:object'', initialState)"
  by (rule getStructureSignature_null)

section \<open>Import of a snapshot\<close>

lemma importKeyMap_frame:
  "importKeyMap km st = (r, st') \<Longrightarrow>
   STRUCTURE_HASH_COUNTER st' = STRUCTURE_HASH_COUNTER st \<and>
   OBJECT_ID_CACHE st' = OBJECT_ID_CACHE st \<and>
   OBJECT_SIGNATURE_CACHE st' = OBJECT_SIGNATURE_CACHE st \<and>
   STRUCTURE_INFO_CACHE st' = STRUCTURE_INFO_CACHE st \<and>
   globalConfig st' = globalConfig st"
  by (induction km st rule: importKeyMap.induct) (auto split: option.splits)

lemma importKeyMap_fails:
  "\<exists>kv \<in> set km. BigInt_of_string (snd kv) = None \<Longrightarrow>
   fst (importKeyMap km st) = Inl SyntaxError"
  by (induction km st rule: importKeyMap.induct) (auto split: option.splits)

lemma importKeyMap_succeeds:
  "\<forall>kv \<in> set km. BigInt_of_string (snd kv) \<noteq> None \<Longrightarrow>
   fst (importKeyMap km st) = Inr ()"
  by (induction km st rule: importKeyMap.induct) (auto split: option.splits)

lemma importKeyMap_entries:
  "importKeyMap km st = (r, st') \<Longrightarrow> map_of (GLOBAL_KEY_MAP st') k = Some b \<Longrightarrow>
   map_of (GLOBAL_KEY_MAP st) k = Some b \<or>
   (\<exists>v. (k, v) \<in> set km \<and> BigInt_of_string v = Some b)"
proof (induction km st rule: importKeyMap.induct)
  case (1 st)
  then show ?case by simp
next
  case (2 key valueStr rest st)
  show ?case
  proof (cases "BigInt_of_string valueStr")
    case None
    with 2 show ?thesis by simp
  next
    case (Some c)
    with 2 show ?thesis
      by (fastforce simp: update_conv' split: if_splits)
  qed
qed

lemma maxBitLoop_succeeds:
  "\<forall>s \<in> set bs. BigInt_of_string s \<noteq> None \<Longrightarrow> \<exists>r. maxBitLoop bs m = Inr r"
  by (induction bs m rule: maxBitLoop.induct) (auto split: option.splits)

lemma importCounters_frame:
  "GLOBAL_KEY_MAP (importCounters cs st) = GLOBAL_KEY_MAP st \<and>
   OBJECT_ID_CACHE (importCounters cs st) = OBJECT_ID_CACHE st \<and>
   OBJECT_SIGNATURE_CACHE (importCounters cs st) = OBJECT_SIGNATURE_CACHE st \<and>
   STRUCTURE_INFO_CACHE (importCounters cs st) = STRUCTURE_INFO_CACHE st \<and>
   globalConfig (importCounters cs st) = globalConfig st"
  by (induction cs st rule: importCounters.induct) auto

lemma importCounters_map_of:
  "map_of (STRUCTURE_HASH_COUNTER (importCounters cs st)) =
   map_of (STRUCTURE_HASH_COUNTER st) ++ map_of (rev cs)"
proof (induction cs st rule: importCounters.induct)
  case (1 st)
  then show ?case by simp
next
  case (2 signature cnt rest st)
  then show ?case
    by (simp add: update_conv' map_add_upd_left fun_eq_iff map_add_def split: option.splits)
qed

lemma BigInt_examples:
  "BigInt_of_string (utf16_of ''1'') = Some 1" "BigInt_of_string (utf16_of ''x'') = None"
  "BigInt_of_string [0xA0, 0x35] = Some 5" "BigInt_of_string [0x2028, 0x35, 0xFEFF] = Some 5"
  by (simp_all add: BigInt_of_string_def utf16_of_def trim_def isWhiteSpace_def
      parseLiteral_def digitVal_def)

text \<open>
  C5, as the claim states it, fails three times. A negative counter is not rejected: the
  import succeeds and the counter map is replaced by the snapshot's. Nor is a counter that
  is not an integer. A string that \<open>BigInt\<close> cannot read raises the \<open>SyntaxError\<close> of
  \<open>BigInt\<close> after the state has been reset and the entries before it have been stored,
  so the state is not the one before the call.
\<close>

theorem importStructureState_counterexample:
  "importStructureState \<lparr>keyMap = [], collisionCounters = [(''L1:3'', - 1 :: int)]\<rparr>
     (initialState\<lparr>STRUCTURE_HASH_COUNTER := [(''L1:3'', 2)]\<rparr>)
     = (Inr (), initialState\<lparr>STRUCTURE_HASH_COUNTER := [(''L1:3'', - 1)]\<rparr>)
   \<and> importStructureState \<lparr>keyMap = [], collisionCounters = [(''L1:3'', 3 / 2 :: rat)]\<rparr>
     (initialState\<lparr>STRUCTURE_HASH_COUNTER := [(''L1:3'', 2)]\<rparr>)
     = (Inr (), initialState\<lparr>STRUCTURE_HASH_COUNTER := [(''L1:3'', 3 / 2)]\<rparr>)
   \<and> importStructureState
       \<lparr>keyMap = [(''a'', utf16_of ''1''), (''b'', utf16_of ''x'')],
        collisionCounters = []\<rparr>
     (initialState\<lparr>GLOBAL_KEY_MAP := [(''k'', 5)],
        STRUCTURE_HASH_COUNTER := [(''L1:3'', 2 :: int)]\<rparr>)
     = (Inl SyntaxError, initialState\<lparr>GLOBAL_KEY_MAP := [(''a'', 1)]\<rparr>)"
  by (simp add: importStructureState_def resetState_def initialState_def BigInt_examples)

text \<open>
  C5, amended. When some string of \<open>keyMap\<close> is not a \<open>BigInt\<close> literal, the import fails
  with the \<open>SyntaxError\<close> of \<open>BigInt\<close>, after the reset: the collision counters and the
  three identity caches are empty, and every key bit present comes from the snapshot.
  When all strings are literals, the import succeeds and the collision counters are the
  snapshot's, stored as given whatever their sign and whether or not they are integers
  (the counters are of any type).
\<close>

theorem importStructureState_outcomes:
  "((\<exists>kv \<in> set (keyMap snapshot). BigInt_of_string (snd kv) = None) \<longrightarrow>
      (\<exists>st'. importStructureState snapshot st = (Inl SyntaxError, st') \<and>
         STRUCTURE_HASH_COUNTER st' = [] \<and> OBJECT_ID_CACHE st' = Map.empty \<and>
         OBJECT_SIGNATURE_CACHE st' = Map.empty \<and> STRUCTURE_INFO_CACHE st' = Map.empty \<and>
         (\<forall>k b. map_of (GLOBAL_KEY_MAP st') k = Some b \<longrightarrow>
            (\<exists>v. (k, v) \<in> set (keyMap snapshot) \<and> BigInt_of_string v = Some b))))
   \<and> ((\<forall>kv \<in> set (keyMap snapshot). BigInt_of_string (snd kv) \<noteq> None) \<longrightarrow>
      (\<exists>st'. importStructureState snapshot st = (Inr (), st') \<and>
         map_of (STRUCTURE_HASH_COUNTER st') = map_of (rev (collisionCounters snapshot))))"
proof (intro conjI impI)
  assume bad: "\<exists>kv \<in> set (keyMap snapshot). BigInt_of_string (snd kv) = None"
  obtain r st1 where run: "importKeyMap (keyMap snapshot) (resetState st) = (r, st1)"
    by (cases "importKeyMap (keyMap snapshot) (resetState st)")
  from importKeyMap_fails [OF bad, of "resetState st"] run have r: "r = Inl SyntaxError"
    by simp
  have frame: "STRUCTURE_HASH_COUNTER st1 = [] \<and> OBJECT_ID_CACHE st1 = Map.empty \<and>
      OBJECT_SIGNATURE_CACHE st1 = Map.empty \<and> STRUCTURE_INFO_CACHE st1 = Map.empty"
    using importKeyMap_frame [OF run] by (simp add: resetState_def)
  have entries: "\<forall>k b. map_of (GLOBAL_KEY_MAP st1) k = Some b \<longrightarrow>
      (\<exists>v. (k, v) \<in> set (keyMap snapshot) \<and> BigInt_of_string v = Some b)"
    using importKeyMap_entries [OF run] by (auto simp: resetState_def)
  show "\<exists>st'. importStructureState snapshot st = (Inl SyntaxError, st') \<and>
         STRUCTURE_HASH_COUNTER st' = [] \<and> OBJECT_ID_CACHE st' = Map.empty \<and>
         OBJECT_SIGNATURE_CACHE st' = Map.empty \<and> STRUCTURE_INFO_CACHE st' = Map.empty \<and>
         (\<forall>k b. map_of (GLOBAL_KEY_MAP st') k = Some b \<longrightarrow>
            (\<exists>v. (k, v) \<in> set (keyMap snapshot) \<and> BigInt_of_string v = Some b))"
    using run r frame entries by (simp add: importStructureState_def)
next
  assume good: "\<forall>kv \<in> set (keyMap snapshot). BigInt_of_string (snd kv) \<noteq> None"
  obtain r st1 where run: "importKeyMap (keyMap snapshot) (resetState st) = (r, st1)"
    by (cases "importKeyMap (keyMap snapshot) (resetState st)")
  from importKeyMap_succeeds [OF good, of "resetState st"] run have r: "r = Inr ()"
    by simp
  have "\<forall>s \<in> set (map snd (keyMap snapshot)). BigInt_of_string s \<noteq> None"
    using good by auto
  from maxBitLoop_succeeds [OF this] obtain m where
    m: "maxBitLoop (map snd (keyMap snapshot)) 0 = Inr m" by blast
  have "STRUCTURE_HASH_COUNTER st1 = []"
    using importKeyMap_frame [OF run] by (simp add: resetState_def)
  then have "map_of (STRUCTURE_HASH_COUNTER (importCounters (collisionCounters snapshot) st1))
      = map_of (rev (collisionCounters snapshot))"
    by (simp add: importCounters_map_of)
  then show "\<exists>st'. importStructureState snapshot st = (Inr (), st') \<and>
         map_of (STRUCTURE_HASH_COUNTER st') = map_of (rev (collisionCounters snapshot))"
    using run r m by (simp add: importStructureState_def)
qed

theorem importStructureState_outcomes_witness:
  "BigInt_of_string (utf16_of ''x'') = None
   \<and> fst (importStructureState
        \<lparr>keyMap = [(''a'', utf16_of ''1''), (''b'', utf16_of ''x'')],
         collisionCounters = [(''s'', 3 / 2 :: rat)]\<rparr>
        initialState) = Inl SyntaxError
   \<and> BigInt_of_string [0xA0, 0x35] = Some 5
   \<and> (\<exists>st'. importStructureState
        \<lparr>keyMap = [(''a'', [0xA0, 0x35])],
         collisionCounters = [(''s'', 3 / 2 :: rat), (''t'', - 1)]\<rparr>
        initialState = (Inr (), st')
       \<and> map_of (STRUCTURE_HASH_COUNTER st') = map_of [(''t'', - 1), (''s'', 3 / 2)])"
  using importStructureState_outcomes [of "\<lparr>keyMap = [(''a'', utf16_of ''1''), (''b'', utf16_of ''x'')], collisionCounters = [(''s'', 3 / 2 :: rat)]\<rparr>" initialState]
    importStructureState_outcomes [of "\<lparr>keyMap = [(''a'', [0xA0, 0x35])], collisionCounters = [(''s'', 3 / 2 :: rat), (''t'', - 1)]\<rparr>" initialState]
  by (auto simp: BigInt_examples)

section \<open>Equations of the traversal\<close>

lemma getType_JRef:
  "getType h (JRef a) = (case deref h a of Object ps \<Rightarrow> ''object'' | Array xs \<Rightarrow> ''array'')"
  by (simp split: heapobj.splits)

lemma getType_scalar_iff:
  "(getType h v \<noteq> ''object'' \<and> getType h v \<noteq> ''array'') \<longleftrightarrow> (\<forall>a. v \<noteq> JRef a)"
  by (cases v) (auto split: heapobj.splits)

lemma objectLoop_Cons:
  "objectLoop recur xx h ps level path (key # keys) m t =
     (case recur (getProp ps key) (level + 1) (path @ [key])
             (childStep xx h level key (getProp ps key) m t) of
        None \<Rightarrow> None
      | Some t3 \<Rightarrow> objectLoop recur xx h ps level path keys (m + 1) t3)"
  by (simp add: childStep_def bitStep_def Let_def split: prod.splits)

lemma arrayLoop_Cons:
  "arrayLoop recur xx h level path (item # items) i m t =
     (case recur item (level + 1) (path @ [''['' @ string_of_nat i @ '']''])
             (childStep xx h level (''['' @ string_of_nat i @ '']'') item m t) of
        None \<Rightarrow> None
      | Some t3 \<Rightarrow> arrayLoop recur xx h level path items (i + 1) (m + 1) t3)"
  by (simp add: childStep_def bitStep_def Let_def split: prod.splits)

lemma objectMap_enter [simp]: "objectMap (enter h v level t) = objectMap t"
  by (simp add: enter_def addHash_def)

lemma processStructure_scalar:
  "\<forall>a. v \<noteq> JRef a \<Longrightarrow> processStructure xx h (Suc n) v level path t = Some (enter h v level t)"
  using getType_scalar_iff [of h v] by (simp add: enter_def Let_def)

lemma processStructure_circular:
  "objectMap t a = Some c \<Longrightarrow>
   processStructure xx h (Suc n) (JRef a) level path t =
     Some (bitStep xx level (''circular:'' @ c) 1 (enter h (JRef a) level t))"
  by (cases "deref h a")
     (simp_all add: enter_def Let_def bitStep_def addHash_def split: prod.splits)

lemma processStructure_Object:
  "objectMap t a = None \<Longrightarrow> deref h a = Object ps \<Longrightarrow>
   processStructure xx h (Suc n) (JRef a) level path t =
     (if level = 0 \<and> ps = [] then
        Some (bitStep xx level ''type:object'' 1 (register h a path (enter h (JRef a) level t)))
      else objectLoop (\<lambda>v l p s. processStructure xx h n v l p s) xx h ps level path
             (sort (map fst ps)) 1
             (bitStep xx level ''type:object'' 1 (register h a path (enter h (JRef a) level t))))"
  by (simp add: enter_def Let_def bitStep_def register_def addHash_def split: prod.splits)

lemma processStructure_Array:
  "objectMap t a = None \<Longrightarrow> deref h a = Array xs \<Longrightarrow>
   processStructure xx h (Suc n) (JRef a) level path t =
     (if level = 0 \<and> xs = [] then
        Some (bitStep xx level ''type:array'' 1 (register h a path (enter h (JRef a) level t)))
      else arrayLoop (\<lambda>v l p s. processStructure xx h n v l p s) xx h level path xs 0 1
             (bitStep xx level (''length:'' @ string_of_nat (length xs)) 1
               (bitStep xx level ''type:array'' 1 (register h a path (enter h (JRef a) level t)))))"
  by (simp add: enter_def Let_def bitStep_def register_def addHash_def split: prod.splits)


declare processStructure.simps (2) [simp del]
declare objectLoop.simps (2) [simp del]
declare arrayLoop.simps (2) [simp del]

lemma stepInvariantD:
  assumes "stepInvariant xx h R"
  shows "R t t" and "R a b \<Longrightarrow> R b c \<Longrightarrow> R a c" and "R t (enter h v l t)"
    and "R t (bitStep xx l key m t)" and "R t (childStep xx h l key ch m t)"
    and "objectMap t ad = None \<Longrightarrow> R t (register h ad p t)"
  using assms unfolding stepInvariant_def by blast+

lemma objectLoop_preserve:
  assumes inv: "stepInvariant xx h R"
    and recur: "\<And>v l p s s'. recur v l p s = Some s' \<Longrightarrow> R s s'"
  shows "objectLoop recur xx h ps level path keys m t = Some t' \<Longrightarrow> R t t'"
proof (induction keys arbitrary: m t)
  case Nil
  then show ?case using stepInvariantD(1) [OF inv] by simp
next
  case (Cons key keys)
  from Cons.prems obtain t3 where
    r: "recur (getProp ps key) (level + 1) (path @ [key])
          (childStep xx h level key (getProp ps key) m t) = Some t3" and
    rest: "objectLoop recur xx h ps level path keys (m + 1) t3 = Some t'"
    by (auto simp: objectLoop_Cons split: option.splits)
  show ?case
    using stepInvariantD(2) [OF inv stepInvariantD(5) [OF inv]
        stepInvariantD(2) [OF inv recur [OF r] Cons.IH [OF rest]]] .
qed

lemma arrayLoop_preserve:
  assumes inv: "stepInvariant xx h R"
    and recur: "\<And>v l p s s'. recur v l p s = Some s' \<Longrightarrow> R s s'"
  shows "arrayLoop recur xx h level path items i m t = Some t' \<Longrightarrow> R t t'"
proof (induction items arbitrary: i m t)
  case Nil
  then show ?case using stepInvariantD(1) [OF inv] by simp
next
  case (Cons item items)
  from Cons.prems obtain t3 where
    r: "recur item (level + 1) (path @ [''['' @ string_of_nat i @ '']''])
          (childStep xx h level (''['' @ string_of_nat i @ '']'') item m t) = Some t3" and
    rest: "arrayLoop recur xx h level path items (i + 1) (m + 1) t3 = Some t'"
    by (auto simp: arrayLoop_Cons split: option.splits)
  show ?case
    using stepInvariantD(2) [OF inv stepInvariantD(5) [OF inv]
        stepInvariantD(2) [OF inv recur [OF r] Cons.IH [OF rest]]] .
qed

lemma processStructure_preserve:
  assumes inv: "stepInvariant xx h R"
  shows "processStructure xx h n v level path t = Some t' \<Longrightarrow> R t t'"
proof (induction n arbitrary: v level path t t')
  case 0
  then show ?case by simp
next
  case (Suc n)
  note tr = stepInvariantD(2) [OF inv]
  note en = stepInvariantD(3) [OF inv]
  note bs = stepInvariantD(4) [OF inv]
  have rec: "\<And>v l p s s'. processStructure xx h n v l p s = Some s' \<Longrightarrow> R s s'"
    using Suc.IH by blast
  show ?case
  proof (cases "\<exists>a. v = JRef a")
    case False
    with Suc.prems show ?thesis using en by (auto simp: processStructure_scalar)
  next
    case True
    then obtain a where v: "v = JRef a" by blast
    show ?thesis
    proof (cases "objectMap t a")
      case (Some c)
      with Suc.prems v show ?thesis
        using tr [OF en bs] by (auto simp: processStructure_circular)
    next
      case None
      define t2 where "t2 = register h a path (enter h (JRef a) level t)"
      have Rt2: "R t t2"
        unfolding t2_def by (rule tr [OF en stepInvariantD(6) [OF inv]]) (simp add: None)
      show ?thesis
      proof (cases "deref h a")
        case (Object ps)
        let ?t3 = "bitStep xx level ''type:object'' 1 t2"
        have Rt3: "R t ?t3" by (rule tr [OF Rt2 bs])
        from Suc.prems v None Object
        consider "t' = ?t3"
          | "objectLoop (processStructure xx h n) xx h ps level
                 path (sort (map fst ps)) 1 ?t3 = Some t'"
          by (auto simp: processStructure_Object t2_def split: if_splits)
        then show ?thesis
        proof cases
          case 1
          then show ?thesis using Rt3 by simp
        next
          case 2
          have "R ?t3 t'" by (rule objectLoop_preserve [OF inv _ 2]) (rule rec)
          then show ?thesis using tr [OF Rt3] by blast
        qed
      next
        case (Array xs)
        let ?t3 = "bitStep xx level ''type:array'' 1 t2"
        let ?t4 = "bitStep xx level (''length:'' @ string_of_nat (length xs)) 1 ?t3"
        have Rt3: "R t ?t3" by (rule tr [OF Rt2 bs])
        have Rt4: "R t ?t4" by (rule tr [OF Rt3 bs])
        from Suc.prems v None Array
        consider "t' = ?t3"
          | "arrayLoop (processStructure xx h n) xx h level path xs 0 1 ?t4 = Some t'"
          by (auto simp: processStructure_Array t2_def split: if_splits)
        then show ?thesis
        proof cases
          case 1
          then show ?thesis using Rt3 by simp
        next
          case 2
          have "R ?t4 t'" by (rule arrayLoop_preserve [OF inv _ 2]) (rule rec)
          then show ?thesis using tr [OF Rt4] by blast
        qed
      qed
    qed
  qed
qed

section \<open>Termination of the traversal\<close>

lemma objectMap_steps [simp]:
  "objectMap (bitStep xx l key m t) = objectMap t"
  "objectMap (childStep xx h l key ch m t) = objectMap t"
  "objectMap (register h a p t) = (objectMap t)(a \<mapsto> getObjectSignature (deref h a) p)"
  by (simp_all add: bitStep_def childStep_def register_def addHash_def)

lemma objectMap_mono_inv:
  "stepInvariant xx h (\<lambda>t t'. objectMap t \<subseteq>\<^sub>m objectMap t')"
  unfolding stepInvariant_def
proof (intro conjI allI impI)
  fix a b c :: traversal
  assume "objectMap a \<subseteq>\<^sub>m objectMap b" "objectMap b \<subseteq>\<^sub>m objectMap c"
  then show "objectMap a \<subseteq>\<^sub>m objectMap c" by (rule map_le_trans)
qed (auto simp: map_le_def)

lemma processStructure_objectMap_mono:
  "processStructure xx h n v level path t = Some t' \<Longrightarrow> objectMap t \<subseteq>\<^sub>m objectMap t'"
  by (rule processStructure_preserve [OF objectMap_mono_inv])

lemma finite_unvisited [simp]: "finite (unvisited h om)"
  by (simp add: unvisited_def)

lemma unvisited_mono: "om \<subseteq>\<^sub>m om' \<Longrightarrow> card (unvisited h om') \<le> card (unvisited h om)"
proof (rule card_mono)
  assume "om \<subseteq>\<^sub>m om'"
  then show "unvisited h om' \<subseteq> unvisited h om"
    by (auto simp: unvisited_def map_le_def dom_def)
qed simp

lemma unvisited_register:
  assumes "a < length h" "om a = None"
  shows "card (unvisited h (om(a \<mapsto> s))) < card (unvisited h om)"
proof (rule psubset_card_mono)
  show "unvisited h (om(a \<mapsto> s)) \<subset> unvisited h om"
    using assms by (auto simp: unvisited_def)
qed simp

lemma objectLoop_total:
  assumes total: "\<And>v l p s. card (unvisited h (objectMap s)) < n \<Longrightarrow> \<exists>s'. recur v l p s = Some s'"
    and mono: "\<And>v l p s s'. recur v l p s = Some s' \<Longrightarrow> objectMap s \<subseteq>\<^sub>m objectMap s'"
  shows "card (unvisited h (objectMap t)) < n \<Longrightarrow>
         \<exists>t'. objectLoop recur xx h ps level path keys m t = Some t'"
proof (induction keys arbitrary: m t)
  case Nil
  then show ?case by simp
next
  case (Cons key keys)
  let ?t2 = "childStep xx h level key (getProp ps key) m t"
  from Cons.prems have "card (unvisited h (objectMap ?t2)) < n" by simp
  from total [OF this] obtain t3 where
    r: "recur (getProp ps key) (level + 1) (path @ [key]) ?t2 = Some t3" by blast
  from mono [OF r] have "objectMap t \<subseteq>\<^sub>m objectMap t3" by simp
  from unvisited_mono [OF this, of h] Cons.prems
  have "card (unvisited h (objectMap t3)) < n" by simp
  from Cons.IH [OF this] r show ?case by (simp add: objectLoop_Cons)
qed

lemma arrayLoop_total:
  assumes total: "\<And>v l p s. card (unvisited h (objectMap s)) < n \<Longrightarrow> \<exists>s'. recur v l p s = Some s'"
    and mono: "\<And>v l p s s'. recur v l p s = Some s' \<Longrightarrow> objectMap s \<subseteq>\<^sub>m objectMap s'"
  shows "card (unvisited h (objectMap t)) < n \<Longrightarrow>
         \<exists>t'. arrayLoop recur xx h level path items i m t = Some t'"
proof (induction items arbitrary: i m t)
  case Nil
  then show ?case by simp
next
  case (Cons item items)
  let ?t2 = "childStep xx h level (''['' @ string_of_nat i @ '']'') item m t"
  from Cons.prems have "card (unvisited h (objectMap ?t2)) < n" by simp
  from total [OF this] obtain t3 where
    r: "recur item (level + 1) (path @ [''['' @ string_of_nat i @ '']'']) ?t2 = Some t3" by blast
  from mono [OF r] have "objectMap t \<subseteq>\<^sub>m objectMap t3" by simp
  from unvisited_mono [OF this, of h] Cons.prems
  have "card (unvisited h (objectMap t3)) < n" by simp
  from Cons.IH [OF this] r show ?case by (simp add: arrayLoop_Cons)
qed

lemma processStructure_total:
  "card (unvisited h (objectMap t)) < n \<Longrightarrow>
   \<exists>t'. processStructure xx h n v level path t = Some t'"
proof (induction n arbitrary: v level path t)
  case 0
  then show ?case by simp
next
  case (Suc n)
  have total: "\<And>v l p s. card (unvisited h (objectMap s)) < n \<Longrightarrow>
      \<exists>s'. processStructure xx h n v l p s = Some s'"
    using Suc.IH by blast
  have mono: "\<And>v l p s s'. processStructure xx h n v l p s = Some s' \<Longrightarrow>
      objectMap s \<subseteq>\<^sub>m objectMap s'"
    by (rule processStructure_objectMap_mono)
  show ?case
  proof (cases "\<exists>a. v = JRef a")
    case False
    then show ?thesis by (simp add: processStructure_scalar)
  next
    case True
    then obtain a where v: "v = JRef a" by blast
    show ?thesis
    proof (cases "objectMap t a")
      case (Some c)
      then show ?thesis by (simp add: v processStructure_circular)
    next
      case None
      show ?thesis
      proof (cases "a < length h")
        case True
        let ?t2 = "register h a path (enter h (JRef a) level t)"
        have small: "card (unvisited h (objectMap ?t2)) < n"
          using unvisited_register [of a h "objectMap t" "getObjectSignature (deref h a) path"]
            True None Suc.prems by simp
        show ?thesis
        proof (cases "deref h a")
          case (Object ps)
          have "card (unvisited h (objectMap (bitStep xx level ''type:object'' 1 ?t2))) < n"
            using small by simp
          from objectLoop_total [where recur = "processStructure xx h n", OF total mono this]
          show ?thesis by (simp add: v processStructure_Object [OF None Object])
        next
          case (Array xs)
          have "card (unvisited h (objectMap
                  (bitStep xx level (''length:'' @ string_of_nat (length xs)) 1
                    (bitStep xx level ''type:array'' 1 ?t2)))) < n"
            using small by simp
          from arrayLoop_total [where recur = "processStructure xx h n", OF total mono this]
          show ?thesis by (simp add: v processStructure_Array [OF None Array])
        qed
      next
        case False
        then have "deref h a = Object []" by (simp add: deref_def)
        then show ?thesis by (simp add: v processStructure_Object [OF None])
      qed
    qed
  qed
qed

lemma objectLoop_recur_mono:
  assumes "\<And>v l p s s'. r1 v l p s = Some s' \<Longrightarrow> r2 v l p s = Some s'"
  shows "objectLoop r1 xx h ps level path keys m t = Some t' \<Longrightarrow>
         objectLoop r2 xx h ps level path keys m t = Some t'"
proof (induction keys arbitrary: m t)
  case Nil
  then show ?case by simp
next
  case (Cons key keys)
  then show ?case using assms by (fastforce simp: objectLoop_Cons split: option.splits)
qed

lemma arrayLoop_recur_mono:
  assumes "\<And>v l p s s'. r1 v l p s = Some s' \<Longrightarrow> r2 v l p s = Some s'"
  shows "arrayLoop r1 xx h level path items i m t = Some t' \<Longrightarrow>
         arrayLoop r2 xx h level path items i m t = Some t'"
proof (induction items arbitrary: i m t)
  case Nil
  then show ?case by simp
next
  case (Cons item items)
  then show ?case using assms by (fastforce simp: arrayLoop_Cons split: option.splits)
qed

lemma processStructure_Suc_fuel:
  "processStructure xx h n v level path t = Some t' \<Longrightarrow>
   processStructure xx h (Suc n) v level path t = Some t'"
proof (induction n arbitrary: v level path t t')
  case 0
  then show ?case by simp
next
  case (Suc n)
  have step: "\<And>v l p s s'. processStructure xx h n v l p s = Some s' \<Longrightarrow>
      processStructure xx h (Suc n) v l p s = Some s'"
    using Suc.IH by blast
  show ?case
  proof (cases "\<exists>a. v = JRef a")
    case False
    with Suc.prems show ?thesis by (simp add: processStructure_scalar)
  next
    case True
    then obtain a where v: "v = JRef a" by blast
    show ?thesis
    proof (cases "objectMap t a")
      case (Some c)
      with Suc.prems v show ?thesis by (simp add: processStructure_circular)
    next
      case None
      show ?thesis
      proof (cases "deref h a")
        case (Object ps)
        with Suc.prems v None show ?thesis
          using objectLoop_recur_mono [where ?r1.0 = "processStructure xx h n"
              and ?r2.0 = "processStructure xx h (Suc n)", OF step]
          by (auto simp: processStructure_Object split: if_splits)
      next
        case (Array xs)
        with Suc.prems v None show ?thesis
          using arrayLoop_recur_mono [where ?r1.0 = "processStructure xx h n"
              and ?r2.0 = "processStructure xx h (Suc n)", OF step]
          by (auto simp: processStructure_Array split: if_splits)
      qed
    qed
  qed
qed

lemma processStructure_fuel_mono:
  "processStructure xx h n v level path t = Some t' \<Longrightarrow> n \<le> m \<Longrightarrow>
   processStructure xx h m v level path t = Some t'"
  by (induction m) (auto simp: le_Suc_eq processStructure_Suc_fuel)

lemma processStructure_fuel_indep:
  "processStructure xx h n v level path t = Some t1 \<Longrightarrow>
   processStructure xx h m v level path t = Some t2 \<Longrightarrow> t1 = t2"
  using processStructure_fuel_mono [of xx h n v level path t t1 "max n m"]
    processStructure_fuel_mono [of xx h m v level path t t2 "max n m"]
  by simp

section \<open>The entry point by cases\<close>


lemma unvisited_empty [simp]: "card (unvisited h Map.empty) = length h"
proof -
  have "unvisited h Map.empty = {..<length h}" by (auto simp: unvisited_def)
  then show ?thesis by simp
qed

lemma generateStructureId_empty:
  "emptyContainer h a \<Longrightarrow>
   generateStructureId xx h fuel (JRef a) config st =
     Some (case deref h a of Object ps \<Rightarrow> ''{}'' | Array xs \<Rightarrow> ''[]'', st)"
  by (cases "deref h a") (simp_all add: generateStructureId_def emptyContainer_def isObject_def)

lemma generateStructureId_ref:
  "\<not> emptyContainer h a \<Longrightarrow>
   generateStructureId xx h fuel (JRef a) config st =
     (if \<not> effective config st \<and> OBJECT_ID_CACHE st a \<noteq> None
      then Some (the (OBJECT_ID_CACHE st a), st)
      else map_option (finish a (effective config st) st)
             (processStructure xx h fuel (JRef a) 0 [] (startTraversal st)))"
  by (cases "deref h a")
     (auto simp: generateStructureId_def emptyContainer_def isObject_def Let_def effective_def
        finish_def startTraversal_def signatureOf_def idOf_def counterOf_def
        split: option.splits)

lemma generateStructureId_nonref:
  "\<forall>a. obj \<noteq> JRef a \<Longrightarrow>
   generateStructureId xx h fuel obj config st = Some (scalarId obj, st)"
  by (cases obj) (simp_all add: generateStructureId_def isObject_def)

lemma generateStructureId_total:
  assumes "length h < fuel"
  shows "\<exists>ident st'. generateStructureId xx h fuel obj config st = Some (ident, st')"
proof (cases "\<exists>a. obj = JRef a")
  case False
  then show ?thesis by (simp add: generateStructureId_nonref)
next
  case True
  then obtain a where obj: "obj = JRef a" by blast
  have "\<exists>t'. processStructure xx h fuel (JRef a) 0 [] (startTraversal st) = Some t'"
    by (rule processStructure_total) (simp add: assms startTraversal_def)
  then show ?thesis
    unfolding obj
    by (cases "emptyContainer h a")
       (auto simp: generateStructureId_empty generateStructureId_ref
          intro: prod.exhaust)
qed

lemma generateStructureId_fuel_mono:
  assumes "generateStructureId xx h n obj config st = Some r" "n \<le> m"
  shows "generateStructureId xx h m obj config st = Some r"
proof (cases "\<exists>a. obj = JRef a \<and> \<not> emptyContainer h a")
  case False
  with assms(1) show ?thesis
    by (cases "\<exists>a. obj = JRef a")
       (auto simp: generateStructureId_nonref generateStructureId_empty)
next
  case True
  then obtain a where obj: "obj = JRef a" and ne: "\<not> emptyContainer h a" by blast
  show ?thesis
  proof (cases "processStructure xx h n (JRef a) 0 [] (startTraversal st)")
    case None
    with assms(1) show ?thesis
      by (auto simp: obj generateStructureId_ref [OF ne] split: if_splits)
  next
    case (Some t')
    from processStructure_fuel_mono [OF Some assms(2)] Some assms(1)
    show ?thesis
      by (auto simp: obj generateStructureId_ref [OF ne] split: if_splits)
  qed
qed

text \<open>
  C6. With fuel above the number of objects in the heap, \<open>generateStructureId\<close> returns
  an identifier for every value, every configuration and every state, whatever cycles the
  object graph has. The reason is the cycle tracker: a reference that the tracker already
  holds is answered within the call itself (fuel 1 is enough, no nested call is made): it
  adds the discriminant and the key bit of \<open>"circular:" + label\<close> to the accumulator of
  its level and leaves the tracker as it is.
\<close>

theorem cycle_termination:
  assumes "length h < fuel"
  shows "(\<exists>ident st'. generateStructureId xxHash32 h fuel obj config st = Some (ident, st'))
    \<and> (\<forall>t a label level path. objectMap t a = Some label \<longrightarrow>
         (\<exists>t'. processStructure xxHash32 h (Suc 0) (JRef a) level path t = Some t' \<and>
            objectMap t' = objectMap t \<and>
            keyBits t' = snd (getBit xxHash32 (''circular:'' @ label) (keyBits t)) \<and>
            levelHashes t' =
              addLevel level (fst (getBit xxHash32 (''circular:'' @ label) (keyBits t)))
                (addLevel level (typeBit (getType h (JRef a)))
                   (seedLevel level (levelHashes t)))))"
  using generateStructureId_total [OF assms]
  by (auto simp: processStructure_circular bitStep_def enter_def addHash_def)

theorem cycle_termination_witness:
  "length [Object [(''self'', JRef 0)]] < 2
   \<and> (\<exists>ident st'. generateStructureId (\<lambda>k. 0) [Object [(''self'', JRef 0)]] 2 (JRef 0) None
          initialState = Some (ident, st'))"
  using cycle_termination [of "[Object [(''self'', JRef 0)]]" 2 "\<lambda>k. 0" "JRef 0" None initialState]
  by simp

section \<open>The info bundle and the collision counters\<close>

lemma effective_stable [simp]: "\<not> effective (Some \<lparr>newIdOnCollision = Some False\<rparr>) st"
  by (simp add: effective_def)

lemma generateStructureId_stable_counter:
  assumes "\<not> effective config st" "generateStructureId xx h fuel obj config st = Some (i, st')"
  shows "STRUCTURE_HASH_COUNTER st' = STRUCTURE_HASH_COUNTER st"
proof (cases "\<exists>a. obj = JRef a")
  case False
  with assms show ?thesis by (simp add: generateStructureId_nonref)
next
  case True
  then obtain a where obj: "obj = JRef a" by blast
  show ?thesis
  proof (cases "emptyContainer h a")
    case True
    with assms obj show ?thesis by (simp add: generateStructureId_empty)
  next
    case False
    with assms obj show ?thesis
      by (auto simp: generateStructureId_ref finish_def Let_def split: if_splits)
  qed
qed

lemma getStructureSignature_nonref:
  "\<forall>a. obj \<noteq> JRef a \<Longrightarrow>
   getStructureSignature xx h fuel obj st = Some (''type:'' @ typeof obj, st)"
  by (cases obj) (simp_all add: getStructureSignature_def)

lemma getStructureSignature_ref:
  "getStructureSignature xx h fuel (JRef a) st =
     (case OBJECT_SIGNATURE_CACHE st a of
        Some s \<Rightarrow> Some (s, st)
      | None \<Rightarrow>
          (case generateStructureId xx h fuel (JRef a) (Some \<lparr>newIdOnCollision = Some False\<rparr>) st of
             None \<Rightarrow> None
           | Some (tempId, st1) \<Rightarrow>
               Some (stripL0 tempId,
                 st1\<lparr>OBJECT_SIGNATURE_CACHE :=
                       (OBJECT_SIGNATURE_CACHE st1)(a \<mapsto> stripL0 tempId)\<rparr>)))"
  by (simp add: getStructureSignature_def Let_def split: option.splits)

text \<open>
  C7, amended. With enough fuel \<open>getStructureInfo\<close> returns, and the collision counters
  are the same after the call as before it, in both modes. Its \<open>collisionCount\<close> is: for
  an object with a cached bundle, the count of that bundle; for an object without one, the
  counter of the signature that \<open>getStructureSignature\<close> gives the object (0 when the
  signature is not registered); for a value that is not an object, 0.
\<close>

theorem getStructureInfo_frame:
  assumes "length h < fuel"
  shows "\<exists>info st'. getStructureInfo xxHash32 h fuel obj config st = Some (info, st') \<and>
      STRUCTURE_HASH_COUNTER st' = STRUCTURE_HASH_COUNTER st \<and>
      (case obj of
         JRef a \<Rightarrow>
           (case STRUCTURE_INFO_CACHE st a of
              Some cached \<Rightarrow> info = cached
            | None \<Rightarrow>
                (\<exists>signature st1.
                   getStructureSignature xxHash32 h fuel obj st = Some (signature, st1) \<and>
                   collisionCount info = counterOf (STRUCTURE_HASH_COUNTER st) signature))
       | _ \<Rightarrow> collisionCount info = 0)"
proof (cases "\<exists>a. obj = JRef a")
  case False
  obtain i st1 where g: "generateStructureId xxHash32 h fuel obj
      (Some \<lparr>newIdOnCollision = Some False\<rparr>) st = Some (i, st1)"
    using generateStructureId_total [OF assms] by blast
  from generateStructureId_stable_counter [OF _ g] False g show ?thesis
    by (cases obj) (simp_all add: getStructureInfo_def)
next
  case True
  then obtain a where obj: "obj = JRef a" by blast
  let ?stable = "Some \<lparr>newIdOnCollision = Some False\<rparr>"
  show ?thesis
  proof (cases "STRUCTURE_INFO_CACHE st a")
    case (Some cached)
    then show ?thesis by (simp add: obj getStructureInfo_def)
  next
    case None
    obtain i1 st1 where g1: "generateStructureId xxHash32 h fuel (JRef a) ?stable st = Some (i1, st1)"
      using generateStructureId_total [OF assms] by blast
    have c1: "STRUCTURE_HASH_COUNTER st1 = STRUCTURE_HASH_COUNTER st"
      by (rule generateStructureId_stable_counter [OF _ g1]) simp
    define sg where "sg = (case OBJECT_SIGNATURE_CACHE st a of Some s \<Rightarrow> s | None \<Rightarrow> stripL0 i1)"
    define sa where "sa = (case OBJECT_SIGNATURE_CACHE st a of Some s \<Rightarrow> st | None \<Rightarrow> st1)"
    have ca: "STRUCTURE_HASH_COUNTER sa = STRUCTURE_HASH_COUNTER st"
      using c1 by (simp add: sa_def split: option.splits)
    have sig: "\<exists>s'. getStructureSignature xxHash32 h fuel (JRef a) st = Some (sg, s')"
      using g1 by (simp add: getStructureSignature_ref sg_def split: option.splits)
    obtain i2 st2 where g2: "generateStructureId xxHash32 h fuel (JRef a) ?stable sa = Some (i2, st2)"
      using generateStructureId_total [OF assms] by blast
    have c2: "STRUCTURE_HASH_COUNTER st2 = STRUCTURE_HASH_COUNTER st"
      using generateStructureId_stable_counter [OF _ g2] ca by simp
    show ?thesis
      using None g1 g2 c1 c2 ca sig
      by (auto simp: obj getStructureInfo_def Let_def sg_def sa_def counterOf_def
          split: option.splits)
  qed
qed

theorem getStructureInfo_frame_witness:
  "length oneKeyHeap < 2
   \<and> (\<exists>info st'. getStructureInfo xxZero oneKeyHeap 2 (JRef 0) None initialState = Some (info, st') \<and>
        STRUCTURE_HASH_COUNTER st' = STRUCTURE_HASH_COUNTER initialState)"
  using getStructureInfo_frame [of oneKeyHeap 2 xxZero "JRef 0" None initialState]
  by (auto simp: oneKeyHeap_def)

text \<open>
  C7, as the claim states it, fails for the count. After \<open>getStructureInfo(record)\<close> has
  cached its bundle and \<open>registerStructure(record, 5)\<close> has set the counter of the
  record's signature to 5, \<open>getStructureInfo(record)\<close> still reports the cached count 0.
  After \<open>registerStructure(42, 3)\<close> the counter of \<open>"type:number"\<close> is 3 and
  \<open>getStructureInfo(42)\<close> reports 0.
\<close>

theorem getStructureInfo_stale_counterexample:
  "collisionCount (fst (the (getStructureInfo xxZero oneKeyHeap 2 (JRef 0) None registeredState))) = 0
   \<and> counterOf (STRUCTURE_HASH_COUNTER registeredState)
        (fst (the (getStructureSignature xxZero oneKeyHeap 2 (JRef 0) registeredState))) = 5
   \<and> collisionCount (fst (the (getStructureInfo xxZero oneKeyHeap 2 JNumber None
        (the (registerStructure xxZero oneKeyHeap 2 JNumber 3 initialState))))) = 0
   \<and> counterOf (STRUCTURE_HASH_COUNTER (the (registerStructure xxZero oneKeyHeap 2 JNumber 3 initialState)))
        (fst (the (getStructureSignature xxZero oneKeyHeap 2 JNumber
           (the (registerStructure xxZero oneKeyHeap 2 JNumber 3 initialState))))) = 3"
  by code_simp

section \<open>Simulation of one traversal by another\<close>

lemma simulation_om:
  "simulation xx f D S \<Longrightarrow> S t1 t2 \<Longrightarrow> a \<in> D \<Longrightarrow> objectMap t2 (f a) = objectMap t1 a"
  unfolding simulation_def by blast

lemma simulation_enter:
  "simulation xx f D S \<Longrightarrow> S t1 t2 \<Longrightarrow> getType h1 v1 = getType h2 v2 \<Longrightarrow>
   S (enter h1 v1 l t1) (enter h2 v2 l t2)"
  unfolding simulation_def enter_def by simp

lemma simulation_bit:
  "simulation xx f D S \<Longrightarrow> S t1 t2 \<Longrightarrow> S (bitStep xx l key m t1) (bitStep xx l key m t2)"
  unfolding simulation_def by blast

lemma simulation_child:
  "simulation xx f D S \<Longrightarrow> S t1 t2 \<Longrightarrow> getType h1 c1 = getType h2 c2 \<Longrightarrow>
   S (childStep xx h1 l key c1 m t1) (childStep xx h2 l key c2 m t2)"
  unfolding simulation_def childStep_def by simp

lemma simulation_register:
  "simulation xx f D S \<Longrightarrow> S t1 t2 \<Longrightarrow> a \<in> D \<Longrightarrow> objectMap t1 a = None \<Longrightarrow>
   getObjectSignature (deref h1 a) p = getObjectSignature (deref h2 (f a)) p \<Longrightarrow>
   S (register h1 a p t1) (register h2 (f a) p t2)"
  unfolding simulation_def register_def by simp

lemma sameShape_getType:
  assumes "sameShape f D h1 h2" "valIn D v"
  shows "getType h1 v = getType h2 (renameVal f v)"
proof (cases v)
  case (JRef a)
  with assms have "sameShapeObj f D (deref h1 a) (deref h2 (f a))"
    by (simp add: sameShape_def valIn_def)
  then show ?thesis
    by (cases "deref h1 a"; cases "deref h2 (f a)") (simp_all add: JRef)
qed simp_all

lemma sameShape_signature:
  assumes "sameShape f D h1 h2" "a \<in> D"
  shows "getObjectSignature (deref h1 a) p = getObjectSignature (deref h2 (f a)) p"
proof -
  from assms have "sameShapeObj f D (deref h1 a) (deref h2 (f a))"
    by (simp add: sameShape_def)
  then show ?thesis
    by (cases "deref h1 a"; cases "deref h2 (f a)") (simp_all add: getObjectSignature_def)
qed

lemma objectLoop_simulate:
  assumes sim: "simulation xx f D S"
    and recur: "\<And>v l p s1 s2 s1'. valIn D v \<Longrightarrow> S s1 s2 \<Longrightarrow> r1 v l p s1 = Some s1' \<Longrightarrow>
                  \<exists>s2'. r2 (renameVal f v) l p s2 = Some s2' \<and> S s1' s2'"
    and children: "\<forall>k \<in> set keys. valIn D (getProp ps k) \<and>
                     renameVal f (getProp ps k) = getProp qs k \<and>
                     getType h1 (getProp ps k) = getType h2 (getProp qs k)"
  shows "S t1 t2 \<Longrightarrow> objectLoop r1 xx h1 ps level path keys m t1 = Some t1' \<Longrightarrow>
         \<exists>t2'. objectLoop r2 xx h2 qs level path keys m t2 = Some t2' \<and> S t1' t2'"
  using children
proof (induction keys arbitrary: m t1 t2)
  case Nil
  then show ?case by auto
next
  case (Cons key keys)
  let ?c = "getProp ps key"
  from Cons.prems(2) obtain s1 where
    r: "r1 ?c (level + 1) (path @ [key]) (childStep xx h1 level key ?c m t1) = Some s1" and
    rest: "objectLoop r1 xx h1 ps level path keys (m + 1) s1 = Some t1'"
    by (auto simp: objectLoop_Cons split: option.splits)
  from Cons.prems(3) have c: "valIn D ?c" "renameVal f ?c = getProp qs key"
      "getType h1 ?c = getType h2 (getProp qs key)" and
    cs: "\<forall>k \<in> set keys. valIn D (getProp ps k) \<and>
                     renameVal f (getProp ps k) = getProp qs k \<and>
                     getType h1 (getProp ps k) = getType h2 (getProp qs k)"
    by simp_all
  have "S (childStep xx h1 level key ?c m t1) (childStep xx h2 level key (getProp qs key) m t2)"
    by (rule simulation_child [OF sim Cons.prems(1) c(3)])
  from recur [OF c(1) this r] obtain s2 where
    r': "r2 (getProp qs key) (level + 1) (path @ [key])
           (childStep xx h2 level key (getProp qs key) m t2) = Some s2" and S': "S s1 s2"
    by (auto simp: c(2))
  from Cons.IH [OF S' rest cs] r' show ?case
    by (simp add: objectLoop_Cons)
qed

lemma arrayLoop_simulate:
  assumes sim: "simulation xx f D S"
    and recur: "\<And>v l p s1 s2 s1'. valIn D v \<Longrightarrow> S s1 s2 \<Longrightarrow> r1 v l p s1 = Some s1' \<Longrightarrow>
                  \<exists>s2'. r2 (renameVal f v) l p s2 = Some s2' \<and> S s1' s2'"
    and children: "\<forall>x \<in> set items. valIn D x \<and> getType h1 x = getType h2 (renameVal f x)"
  shows "S t1 t2 \<Longrightarrow> arrayLoop r1 xx h1 level path items i m t1 = Some t1' \<Longrightarrow>
         \<exists>t2'. arrayLoop r2 xx h2 level path (map (renameVal f) items) i m t2 = Some t2' \<and>
               S t1' t2'"
  using children
proof (induction items arbitrary: i m t1 t2)
  case Nil
  then show ?case by auto
next
  case (Cons item items)
  let ?key = "''['' @ string_of_nat i @ '']''"
  from Cons.prems(2) obtain s1 where
    r: "r1 item (level + 1) (path @ [?key]) (childStep xx h1 level ?key item m t1) = Some s1" and
    rest: "arrayLoop r1 xx h1 level path items (i + 1) (m + 1) s1 = Some t1'"
    by (auto simp: arrayLoop_Cons split: option.splits)
  from Cons.prems(3) have c: "valIn D item" "getType h1 item = getType h2 (renameVal f item)" and
    cs: "\<forall>x \<in> set items. valIn D x \<and> getType h1 x = getType h2 (renameVal f x)"
    by simp_all
  have "S (childStep xx h1 level ?key item m t1)
          (childStep xx h2 level ?key (renameVal f item) m t2)"
    by (rule simulation_child [OF sim Cons.prems(1) c(2)])
  from recur [OF c(1) this r] obtain s2 where
    r': "r2 (renameVal f item) (level + 1) (path @ [?key])
           (childStep xx h2 level ?key (renameVal f item) m t2) = Some s2" and S': "S s1 s2"
    by auto
  from Cons.IH [OF S' rest cs] r' show ?case
    by (simp add: arrayLoop_Cons)
qed


lemma sameShape_children_object:
  assumes "sameShape f D h1 h2" "a \<in> D" "deref h1 a = Object ps" "deref h2 (f a) = Object qs"
  shows "sort (map fst ps) = sort (map fst qs)"
    and "\<forall>k \<in> set (sort (map fst ps)). valIn D (getProp ps k) \<and>
           renameVal f (getProp ps k) = getProp qs k \<and>
           getType h1 (getProp ps k) = getType h2 (getProp qs k)"
proof -
  have s: "sameShapeObj f D (Object ps) (Object qs)"
    using assms unfolding sameShape_def by metis
  then show "sort (map fst ps) = sort (map fst qs)" by simp
  show "\<forall>k \<in> set (sort (map fst ps)). valIn D (getProp ps k) \<and>
           renameVal f (getProp ps k) = getProp qs k \<and>
           getType h1 (getProp ps k) = getType h2 (getProp qs k)"
  proof
    fix k assume "k \<in> set (sort (map fst ps))"
    then have "k \<in> set (map fst ps)" by simp
    with s have v: "valIn D (getProp ps k)" and r: "renameVal f (getProp ps k) = getProp qs k"
      by auto
    from sameShape_getType [OF assms(1) v] r
    show "valIn D (getProp ps k) \<and> renameVal f (getProp ps k) = getProp qs k \<and>
           getType h1 (getProp ps k) = getType h2 (getProp qs k)"
      using v by simp
  qed
qed

lemma sameShape_children_array:
  assumes "sameShape f D h1 h2" "a \<in> D" "deref h1 a = Array xs"
  shows "deref h2 (f a) = Array (map (renameVal f) xs)"
    and "\<forall>x \<in> set xs. valIn D x \<and> getType h1 x = getType h2 (renameVal f x)"
proof -
  have s: "sameShapeObj f D (Array xs) (deref h2 (f a))"
    using assms unfolding sameShape_def by metis
  then show "deref h2 (f a) = Array (map (renameVal f) xs)"
    by (cases "deref h2 (f a)") simp_all
  from s have "\<forall>x \<in> set xs. valIn D x" by (cases "deref h2 (f a)") simp_all
  then show "\<forall>x \<in> set xs. valIn D x \<and> getType h1 x = getType h2 (renameVal f x)"
    using sameShape_getType [OF assms(1)] by blast
qed

lemma sameShape_object_kind:
  assumes "sameShape f D h1 h2" "a \<in> D" "deref h1 a = Object ps"
  shows "\<exists>qs. deref h2 (f a) = Object qs \<and> (ps = [] \<longleftrightarrow> qs = [])"
proof -
  have s: "sameShapeObj f D (Object ps) (deref h2 (f a))"
    using assms unfolding sameShape_def by metis
  then obtain qs where q: "deref h2 (f a) = Object qs" by (cases "deref h2 (f a)") simp_all
  with s have "sort (map fst ps) = sort (map fst qs)" by simp
  then have "length (sort (map fst ps)) = length (sort (map fst qs))" by simp
  then have "ps = [] \<longleftrightarrow> qs = []" by auto
  with q show ?thesis by blast
qed

lemma processStructure_simulate:
  assumes sim: "simulation xx f D S" and shape: "sameShape f D h1 h2"
  shows "valIn D v \<Longrightarrow> S t1 t2 \<Longrightarrow> processStructure xx h1 n v level path t1 = Some t1' \<Longrightarrow>
         \<exists>t2'. processStructure xx h2 n (renameVal f v) level path t2 = Some t2' \<and> S t1' t2'"
proof (induction n arbitrary: v level path t1 t2 t1')
  case 0
  then show ?case by simp
next
  case (Suc n)
  have rec: "\<And>v l p s1 s2 s1'. valIn D v \<Longrightarrow> S s1 s2 \<Longrightarrow>
      processStructure xx h1 n v l p s1 = Some s1' \<Longrightarrow>
      \<exists>s2'. processStructure xx h2 n (renameVal f v) l p s2 = Some s2' \<and> S s1' s2'"
    using Suc.IH by blast
  have ty: "getType h1 v = getType h2 (renameVal f v)"
    by (rule sameShape_getType [OF shape Suc.prems(1)])
  have en: "S (enter h1 v level t1) (enter h2 (renameVal f v) level t2)"
    by (rule simulation_enter [OF sim Suc.prems(2) ty])
  show ?case
  proof (cases "\<exists>a. v = JRef a")
    case False
    then have "\<forall>a. renameVal f v \<noteq> JRef a" by (cases v) auto
    with False Suc.prems(3) en show ?thesis by (auto simp: processStructure_scalar)
  next
    case True
    then obtain a where v: "v = JRef a" by blast
    with Suc.prems(1) have aD: "a \<in> D" by (simp add: valIn_def)
    have om: "objectMap t2 (f a) = objectMap t1 a"
      by (rule simulation_om [OF sim Suc.prems(2) aD])
    show ?thesis
    proof (cases "objectMap t1 a")
      case (Some c)
      with Suc.prems(3) v om simulation_bit [OF sim en] show ?thesis
        by (auto simp: processStructure_circular)
    next
      case None
      let ?u1 = "register h1 a path (enter h1 (JRef a) level t1)"
      let ?u2 = "register h2 (f a) path (enter h2 (JRef (f a)) level t2)"
      have reg: "S ?u1 ?u2"
        using simulation_register [OF sim en [unfolded v]  aD _ sameShape_signature [OF shape aD]]
          None by simp
      have None2: "objectMap t2 (f a) = None" using om None by simp
      show ?thesis
      proof (cases "deref h1 a")
        case (Object ps)
        from sameShape_object_kind [OF shape aD Object] obtain qs where
          q: "deref h2 (f a) = Object qs" and emp: "ps = [] \<longleftrightarrow> qs = []" by blast
        note ch = sameShape_children_object [OF shape aD Object q]
        let ?w1 = "bitStep xx level ''type:object'' 1 ?u1"
        let ?w2 = "bitStep xx level ''type:object'' 1 ?u2"
        have w: "S ?w1 ?w2" by (rule simulation_bit [OF sim reg])
        show ?thesis
        proof (cases "level = 0 \<and> ps = []")
          case True
          with Suc.prems(3) v None Object q emp None2 w show ?thesis
            by (auto simp: processStructure_Object)
        next
          case False
          with Suc.prems(3) v None Object
          have run: "objectLoop (processStructure xx h1 n) xx h1 ps level path
                       (sort (map fst ps)) 1 ?w1 = Some t1'"
            by (auto simp: processStructure_Object split: if_splits)
          from objectLoop_simulate [where ?r1.0 = "processStructure xx h1 n"
              and ?r2.0 = "processStructure xx h2 n", OF sim rec ch(2) w run]
          show ?thesis
            using False emp ch(1) by (auto simp: v processStructure_Object [OF None2 q])
        qed
      next
        case (Array xs)
        note ch = sameShape_children_array [OF shape aD Array]
        let ?w1 = "bitStep xx level ''type:array'' 1 ?u1"
        let ?w2 = "bitStep xx level ''type:array'' 1 ?u2"
        let ?x1 = "bitStep xx level (''length:'' @ string_of_nat (length xs)) 1 ?w1"
        let ?x2 = "bitStep xx level (''length:'' @ string_of_nat (length xs)) 1 ?w2"
        have w: "S ?w1 ?w2" by (rule simulation_bit [OF sim reg])
        have x: "S ?x1 ?x2" by (rule simulation_bit [OF sim w])
        show ?thesis
        proof (cases "level = 0 \<and> xs = []")
          case True
          with Suc.prems(3) v None Array ch(1) None2 w show ?thesis
            by (auto simp: processStructure_Array)
        next
          case False
          with Suc.prems(3) v None Array
          have run: "arrayLoop (processStructure xx h1 n) xx h1 level path xs 0 1 ?x1 = Some t1'"
            by (auto simp: processStructure_Array split: if_splits)
          from arrayLoop_simulate [where ?r1.0 = "processStructure xx h1 n"
              and ?r2.0 = "processStructure xx h2 n", OF sim rec ch(2) x run]
          show ?thesis
            using False by (auto simp: v processStructure_Array [OF None2 ch(1)])
        qed
      qed
    qed
  qed
qed

section \<open>Dependence of the traversal on the key map\<close>

lemma getBit_fst [simp]: "fst (getBit xx key km) = bitOf xx km key"
  by (simp add: getBit_def bitOf_def Let_def split: option.splits)

lemma getBit_keys [simp]:
  "fst ` set (snd (getBit xx key km)) = insert key (fst ` set km)"
proof (cases "map_of km key")
  case None
  then show ?thesis by (simp add: getBit_def Let_def dom_update)
next
  case (Some b)
  then have "key \<in> fst ` set km" by (metis map_of_eq_None_iff option.distinct(1))
  with Some show ?thesis by (auto simp: getBit_def)
qed

lemma getBit_bitOf [simp]: "bitOf xx (snd (getBit xx key km)) = bitOf xx km"
  by (auto simp: getBit_def bitOf_def Let_def update_conv' fun_eq_iff split: option.splits)

lemma renameVal_id [simp]: "renameVal (\<lambda>a. a) v = v"
  by (cases v) simp_all

lemma valIn_UNIV [simp]: "valIn UNIV v"
  by (simp add: valIn_def split: jsval.splits)

lemma sameShape_refl: "sameShape (\<lambda>a. a) UNIV h h"
proof -
  have "\<And>ob. sameShapeObj (\<lambda>a. a) UNIV ob ob"
    by (case_tac ob) (simp_all add: map_idI)
  then show ?thesis by (simp add: sameShape_def)
qed

lemma keyBits_steps [simp]:
  "keyBits (addHash l x t) = keyBits t"
  "keyBits (bitStep xx l key m t) = snd (getBit xx key (keyBits t))"
  "keyBits (enter h v l t) = keyBits t"
  "keyBits (register h a p t) = keyBits t"
  "keyBits (childStep xx h l key c m t) = snd (getBit xx key (keyBits t))"
  by (simp_all add: addHash_def bitStep_def enter_def register_def childStep_def)

lemma levelHashes_steps [simp]:
  "levelHashes (addHash l x t) = addLevel l x (levelHashes t)"
  "levelHashes (bitStep xx l key m t) = addLevel l (bitOf xx (keyBits t) key * m) (levelHashes t)"
  "levelHashes (register h a p t) = levelHashes t"
  by (simp_all add: addHash_def bitStep_def register_def)

lemma objectMap_addHash [simp]: "objectMap (addHash l x t) = objectMap t"
  by (simp add: addHash_def)

lemma keyRel_simulation: "simulation xx (\<lambda>a. a) UNIV (keyRel xx K)"
  unfolding simulation_def keyRel_def
  by auto

lemma keysRel_simulation: "simulation xx (\<lambda>a. a) UNIV (keysRel K)"
  unfolding simulation_def keysRel_def
  by auto

lemma bitOf_inv: "stepInvariant xx h (\<lambda>t t'. bitOf xx (keyBits t') = bitOf xx (keyBits t) \<and>
    fst ` set (keyBits t) \<subseteq> fst ` set (keyBits t'))"
  unfolding stepInvariant_def by auto

lemma processStructure_bitOf:
  "processStructure xx h n v level path t = Some t' \<Longrightarrow>
   bitOf xx (keyBits t') = bitOf xx (keyBits t) \<and>
   fst ` set (keyBits t) \<subseteq> fst ` set (keyBits t')"
  by (rule processStructure_preserve [OF bitOf_inv])

lemma processStructure_key_agree:
  assumes run: "processStructure xx h n v level path t1 = Some t1'"
    and agree: "\<forall>k \<in> fst ` set (keyBits t1'). bitOf xx (keyBits t1) k = bitOf xx (keyBits t2) k"
    and same: "levelHashes t1 = levelHashes t2" "objectMap t1 = objectMap t2"
  shows "\<exists>t2'. processStructure xx h n v level path t2 = Some t2' \<and>
           levelHashes t2' = levelHashes t1' \<and> objectMap t2' = objectMap t1'"
proof -
  let ?K = "fst ` set (keyBits t1')"
  have S: "keyRel xx ?K t1 t2" using agree same by (simp add: keyRel_def)
  from processStructure_simulate [OF keyRel_simulation sameShape_refl valIn_UNIV S run]
  obtain t2' where r2: "processStructure xx h n v level path t2 = Some t2'"
    and S': "keyRel xx ?K t1' t2'" by auto
  from S' have "levelHashes t2' = levelHashes t1'" "objectMap t2' = objectMap t1'"
    by (simp_all add: keyRel_def)
  with r2 show ?thesis by blast
qed

lemma processStructure_bitOf_eq:
  assumes run: "processStructure xx h n v level path t1 = Some t1'"
    and agree: "bitOf xx (keyBits t1) = bitOf xx (keyBits t2)"
    and same: "levelHashes t1 = levelHashes t2" "objectMap t1 = objectMap t2"
  shows "\<exists>t2'. processStructure xx h n v level path t2 = Some t2' \<and>
           levelHashes t2' = levelHashes t1' \<and> objectMap t2' = objectMap t1' \<and>
           bitOf xx (keyBits t2') = bitOf xx (keyBits t1')"
proof -
  from processStructure_key_agree [OF run _ same] agree obtain t2' where
    r2: "processStructure xx h n v level path t2 = Some t2'" and
    eq: "levelHashes t2' = levelHashes t1'" "objectMap t2' = objectMap t1'" by auto
  from processStructure_bitOf [OF run] processStructure_bitOf [OF r2] agree
  have "bitOf xx (keyBits t2') = bitOf xx (keyBits t1')" by simp
  with r2 eq show ?thesis by blast
qed

lemma processStructure_keys:
  assumes run: "processStructure xx h n v level path t1 = Some t1'"
    and empty: "keyBits t1 = []"
    and same: "objectMap t1 = objectMap t2"
  shows "\<exists>t2'. processStructure xx h n v level path t2 = Some t2' \<and>
           fst ` set (keyBits t2') = fst ` set (keyBits t2) \<union> fst ` set (keyBits t1')"
proof -
  have S: "keysRel (fst ` set (keyBits t2)) t1 t2" using same empty by (simp add: keysRel_def)
  from processStructure_simulate [OF keysRel_simulation sameShape_refl valIn_UNIV S run]
  show ?thesis by (auto simp: keysRel_def)
qed

section \<open>The levels an identifier has\<close>

lemma levelHashes_enter [simp]:
  "levelHashes (enter h v l t) = addLevel l (typeBit (getType h v)) (seedLevel l (levelHashes t))"
  by (simp add: enter_def addHash_def)

lemma levelHashes_childStep [simp]:
  "levelHashes (childStep xx h l key c m t) =
     addLevel l (typeBit (getType h c) * m) (addLevel l (bitOf xx (keyBits t) key * m) (levelHashes t))"
  by (simp add: childStep_def)

lemma addLevel_keys [simp]: "fst ` set (addLevel l x lh) = insert l (fst ` set lh)"
  by (simp add: addLevel_def dom_update)

lemma seedLevel_keys [simp]: "fst ` set (seedLevel l lh) = insert l (fst ` set lh)"
proof (cases "map_of lh l")
  case None
  then show ?thesis by (simp add: seedLevel_def dom_update)
next
  case (Some v)
  then have "l \<in> fst ` set lh" by (metis map_of_eq_None_iff option.distinct(1))
  with Some show ?thesis by (auto simp: seedLevel_def dom_update)
qed

lemma addLevel_distinct: "distinct (map fst lh) \<Longrightarrow> distinct (map fst (addLevel l x lh))"
  by (simp add: addLevel_def distinct_update)

lemma seedLevel_distinct: "distinct (map fst lh) \<Longrightarrow> distinct (map fst (seedLevel l lh))"
  by (simp add: seedLevel_def distinct_update split: option.splits)

lemma levelsRel_inv: "stepInvariant xx h levelsRel"
  unfolding stepInvariant_def levelsRel_def
  by (auto simp: addLevel_distinct seedLevel_distinct)

lemma processStructure_levelsRel:
  "processStructure xx h n v level path t = Some t' \<Longrightarrow> levelsRel t t'"
  by (rule processStructure_preserve [OF levelsRel_inv])

lemma processStructure_after_enter:
  assumes inv: "stepInvariant xx h R"
    and run: "processStructure xx h n v level path t = Some t'"
  shows "R (enter h v level t) t'"
proof -
  note tr = stepInvariantD(2) [OF inv]
  note bs = stepInvariantD(4) [OF inv]
  from run obtain k where n: "n = Suc k" by (cases n) auto
  have rec: "\<And>v l p s s'. processStructure xx h k v l p s = Some s' \<Longrightarrow> R s s'"
    by (rule processStructure_preserve [OF inv])
  show ?thesis
  proof (cases "\<exists>a. v = JRef a")
    case False
    with run n show ?thesis
      using stepInvariantD(1) [OF inv] by (auto simp: processStructure_scalar)
  next
    case True
    then obtain a where v: "v = JRef a" by blast
    show ?thesis
    proof (cases "objectMap t a")
      case (Some c)
      with run n v show ?thesis using bs by (auto simp: processStructure_circular)
    next
      case None
      let ?t2 = "register h a path (enter h (JRef a) level t)"
      have Rt2: "R (enter h (JRef a) level t) ?t2"
        by (rule stepInvariantD(6) [OF inv]) (simp add: None)
      show ?thesis
      proof (cases "deref h a")
        case (Object ps)
        let ?t3 = "bitStep xx level ''type:object'' 1 ?t2"
        have Rt3: "R (enter h (JRef a) level t) ?t3" by (rule tr [OF Rt2 bs])
        from run n v None Object
        consider "t' = ?t3"
          | "objectLoop (processStructure xx h k) xx h ps level
                 path (sort (map fst ps)) 1 ?t3 = Some t'"
          by (auto simp: processStructure_Object split: if_splits)
        then show ?thesis
        proof cases
          case 1
          then show ?thesis using Rt3 v by simp
        next
          case 2
          have "R ?t3 t'" by (rule objectLoop_preserve [OF inv _ 2]) (rule rec)
          then show ?thesis using tr [OF Rt3] v by blast
        qed
      next
        case (Array xs)
        let ?t3 = "bitStep xx level ''type:array'' 1 ?t2"
        let ?t4 = "bitStep xx level (''length:'' @ string_of_nat (length xs)) 1 ?t3"
        have Rt3: "R (enter h (JRef a) level t) ?t3" by (rule tr [OF Rt2 bs])
        have Rt4: "R (enter h (JRef a) level t) ?t4" by (rule tr [OF Rt3 bs])
        from run n v None Array
        consider "t' = ?t3"
          | "arrayLoop (processStructure xx h k) xx h level path xs 0 1 ?t4 = Some t'"
          by (auto simp: processStructure_Array split: if_splits)
        then show ?thesis
        proof cases
          case 1
          then show ?thesis using Rt3 v by simp
        next
          case 2
          have "R ?t4 t'" by (rule arrayLoop_preserve [OF inv _ 2]) (rule rec)
          then show ?thesis using tr [OF Rt4] v by blast
        qed
      qed
    qed
  qed
qed

lemma processStructure_level_present:
  assumes "processStructure xx h n v level path t = Some t'"
  shows "level \<in> fst ` set (levelHashes t')"
  using processStructure_after_enter [OF levelsRel_inv assms]
  by (auto simp: levelsRel_def)

lemma objectLoop_next_level:
  assumes run: "objectLoop (processStructure xx h n) xx h ps level path keys m t = Some t'"
    and ne: "keys \<noteq> []"
  shows "Suc level \<in> fst ` set (levelHashes t')"
proof -
  from ne obtain key rest where keys: "keys = key # rest" by (cases keys) auto
  from run obtain s where
    r: "processStructure xx h n (getProp ps key) (level + 1) (path @ [key])
          (childStep xx h level key (getProp ps key) m t) = Some s" and
    l: "objectLoop (processStructure xx h n) xx h ps level path rest (m + 1) s = Some t'"
    by (auto simp: keys objectLoop_Cons split: option.splits)
  from processStructure_level_present [OF r] have "Suc level \<in> fst ` set (levelHashes s)" by simp
  moreover have "levelsRel s t'"
    by (rule objectLoop_preserve [OF levelsRel_inv _ l]) (rule processStructure_levelsRel)
  ultimately show ?thesis by (auto simp: levelsRel_def)
qed

lemma arrayLoop_next_level:
  assumes run: "arrayLoop (processStructure xx h n) xx h level path items i m t = Some t'"
    and ne: "items \<noteq> []"
  shows "Suc level \<in> fst ` set (levelHashes t')"
proof -
  from ne obtain item rest where items: "items = item # rest" by (cases items) auto
  from run obtain s where
    r: "processStructure xx h n item (level + 1) (path @ [''['' @ string_of_nat i @ '']''])
          (childStep xx h level (''['' @ string_of_nat i @ '']'') item m t) = Some s" and
    l: "arrayLoop (processStructure xx h n) xx h level path rest (i + 1) (m + 1) s = Some t'"
    by (auto simp: items arrayLoop_Cons split: option.splits)
  from processStructure_level_present [OF r] have "Suc level \<in> fst ` set (levelHashes s)" by simp
  moreover have "levelsRel s t'"
    by (rule arrayLoop_preserve [OF levelsRel_inv _ l]) (rule processStructure_levelsRel)
  ultimately show ?thesis by (auto simp: levelsRel_def)
qed

lemma root_levels:
  assumes run: "processStructure xx h n (JRef a) 0 [] (startTraversal st) = Some t'"
    and ne: "\<not> emptyContainer h a"
  shows "distinct (map fst (levelHashes t'))" and "0 \<in> fst ` set (levelHashes t')"
    and "Suc 0 \<in> fst ` set (levelHashes t')"
proof -
  from processStructure_levelsRel [OF run]
  show "distinct (map fst (levelHashes t'))" by (simp add: levelsRel_def startTraversal_def)
  from processStructure_level_present [OF run]
  show "0 \<in> fst ` set (levelHashes t')" .
  from run obtain k where n: "n = Suc k" by (cases n) auto
  have none: "objectMap (startTraversal st) a = None" by (simp add: startTraversal_def)
  show "Suc 0 \<in> fst ` set (levelHashes t')"
  proof (cases "deref h a")
    case (Object ps)
    with ne have "ps \<noteq> []" by (auto simp: emptyContainer_def)
    then have "length (sort (map fst ps)) \<noteq> 0" by simp
    then have "sort (map fst ps) \<noteq> []" by (simp only: length_0_conv not_False_eq_True)
    moreover from run n ne Object
    have "objectLoop (processStructure xx h k) xx h ps 0 [] (sort (map fst ps)) 1
            (bitStep xx 0 ''type:object'' 1
               (register h a [] (enter h (JRef a) 0 (startTraversal st)))) = Some t'"
      by (simp add: processStructure_Object [OF none Object] emptyContainer_def)
    ultimately show ?thesis by (rule objectLoop_next_level [rotated])
  next
    case (Array xs)
    with ne have "xs \<noteq> []" by (auto simp: emptyContainer_def)
    moreover from run n ne Array
    have "arrayLoop (processStructure xx h k) xx h 0 [] xs 0 1
            (bitStep xx 0 (''length:'' @ string_of_nat (length xs)) 1
              (bitStep xx 0 ''type:array'' 1
                 (register h a [] (enter h (JRef a) 0 (startTraversal st))))) = Some t'"
      by (simp add: processStructure_Array [OF none Array] emptyContainer_def)
    ultimately show ?thesis by (rule arrayLoop_next_level [rotated])
  qed
qed

section \<open>The text of an identifier\<close>

lemma digit_char_code: "d < 10 \<Longrightarrow> of_char (digit_char d) = (48 + d :: nat)"
proof -
  assume "d < 10"
  then have "d \<in> {0, 1, 2, 3, 4, 5, 6, 7, 8, 9}" by auto
  then show ?thesis by (auto simp: digit_char_def)
qed

lemma unat_of_char: "unat (of_char c :: 16 word) = of_char c"
proof -
  have "(of_char c :: nat) mod 256 = of_char c" by (rule of_char_mod_256)
  then have "(of_char c :: nat) < 256" by (metis mod_less_divisor zero_less_numeral)
  also have "(256 :: nat) < 2 ^ LENGTH(16)" by simp
  finally have "(of_char c :: nat) < 2 ^ LENGTH(16)" .
  then have "(of_char c :: nat) mod 2 ^ LENGTH(16) = of_char c" by (rule mod_less)
  then have "unat (of_nat (of_char c) :: 16 word) = of_char c"
    by (simp only: unat_of_nat)
  then show ?thesis by (simp only: of_nat_of_char)
qed

lemma digitVal_digit_char: "d < 10 \<Longrightarrow> digitVal (of_char (digit_char d)) = Some d"
  by (simp add: digitVal_def unat_of_char digit_char_code Let_def)

lemma isWhiteSpace_digit_char: "d < 10 \<Longrightarrow> \<not> isWhiteSpace (of_char (digit_char d))"
  by (simp add: isWhiteSpace_def unat_of_char digit_char_code)

lemma parseDigits_snoc:
  "parseDigits base (cs @ [c]) acc =
     (case parseDigits base cs acc of
        None \<Rightarrow> None
      | Some r \<Rightarrow> (case digitVal c of
                    None \<Rightarrow> None
                  | Some d \<Rightarrow> if d < base then Some (r * base + d) else None))"
  by (induction cs arbitrary: acc) (auto split: option.splits)

lemma parseDigits_string_of_nat: "parseDigits 10 (utf16_of (string_of_nat n)) 0 = Some n"
proof (induction n rule: string_of_nat.induct)
  case (1 n)
  show ?case
  proof (cases "n < 10")
    case True
    then show ?thesis
      by (subst string_of_nat.simps) (simp add: digitVal_digit_char utf16_of_def)
  next
    case False
    with 1 have "parseDigits 10 (utf16_of (string_of_nat (n div 10))) 0 = Some (n div 10)"
      by simp
    with False show ?thesis
      by (subst string_of_nat.simps)
         (simp add: parseDigits_snoc digitVal_digit_char utf16_of_def)
  qed
qed

lemma string_of_nat_nonempty: "string_of_nat n \<noteq> []"
  by (subst string_of_nat.simps) simp

lemma string_of_nat_chars:
  "c \<in> set (string_of_nat n) \<Longrightarrow> \<exists>d < 10. c = digit_char d"
proof (induction n rule: string_of_nat.induct)
  case (1 n)
  show ?case
  proof (cases "n < 10")
    case True
    with 1(2) show ?thesis by (subst (asm) string_of_nat.simps) auto
  next
    case False
    from 1(2) have "c \<in> set (string_of_nat (n div 10)) \<or> c = digit_char (n mod 10)"
      using False by (subst (asm) string_of_nat.simps) auto
    then show ?thesis
    proof
      assume "c \<in> set (string_of_nat (n div 10))"
      with 1(1) False show ?thesis by simp
    next
      assume "c = digit_char (n mod 10)"
      then show ?thesis by (intro exI [of _ "n mod 10"]) simp
    qed
  qed
qed

lemma string_of_nat_inj: "string_of_nat m = string_of_nat n \<Longrightarrow> m = n"
proof -
  assume e: "string_of_nat m = string_of_nat n"
  have "Some m = parseDigits 10 (utf16_of (string_of_nat m)) 0"
    by (simp only: parseDigits_string_of_nat)
  also have "\<dots> = parseDigits 10 (utf16_of (string_of_nat n)) 0" by (simp only: e)
  also have "\<dots> = Some n" by (rule parseDigits_string_of_nat)
  finally show "m = n" by simp
qed

lemma digit_char_not_minus: "d < 10 \<Longrightarrow> digit_char d \<noteq> CHR ''-''"
  using digit_char_code [of d] by (auto simp: of_char_eq_iff [symmetric] simp del: of_char_eq_iff)

lemma string_of_nat_no_minus: "CHR ''-'' \<notin> set (string_of_nat n)"
proof
  assume "CHR ''-'' \<in> set (string_of_nat n)"
  from string_of_nat_chars [OF this] obtain d where "d < 10" "CHR ''-'' = digit_char d" by blast
  with digit_char_not_minus [of d] show False by simp
qed

lemma bigint_toString_inj: "bigint_toString i = bigint_toString j \<Longrightarrow> i = j"
proof -
  assume eq: "bigint_toString i = bigint_toString j"
  have hd_pos: "\<And>n. hd (string_of_nat n) \<noteq> CHR ''-''"
    using string_of_nat_no_minus string_of_nat_nonempty by (metis hd_in_set)
  show ?thesis
  proof (cases "i < 0")
    case True
    show ?thesis
    proof (cases "j < 0")
      case True
      with \<open>i < 0\<close> eq have "nat (- i) = nat (- j)"
        by (auto simp: bigint_toString_def dest: string_of_nat_inj)
      with True \<open>i < 0\<close> show ?thesis by simp
    next
      case False
      with True eq have "string_of_nat (nat j) = CHR ''-'' # string_of_nat (nat (- i))"
        by (simp add: bigint_toString_def)
      then have "hd (string_of_nat (nat j)) = CHR ''-''" by simp
      with hd_pos show ?thesis by blast
    qed
  next
    case False
    show ?thesis
    proof (cases "j < 0")
      case True
      with False eq have "string_of_nat (nat i) = CHR ''-'' # string_of_nat (nat (- j))"
        by (simp add: bigint_toString_def)
      then have "hd (string_of_nat (nat i)) = CHR ''-''" by simp
      with hd_pos show ?thesis by blast
    next
      case nj: False
      with False eq have "nat i = nat j"
        by (auto simp: bigint_toString_def dest: string_of_nat_inj)
      with False nj show ?thesis by simp
    qed
  qed
qed

lemma sorted_keys_head:
  assumes "sorted (map fst xs)" "distinct (map fst xs)" "(0::nat) \<in> fst ` set xs"
  shows "\<exists>v xs'. xs = (0, v) # xs' \<and> (\<forall>e \<in> set xs'. 0 < fst e)"
proof (cases xs)
  case Nil
  with assms show ?thesis by simp
next
  case (Cons x xs')
  from assms(1) Cons have le: "\<forall>e \<in> set xs'. fst x \<le> fst e" by simp
  from assms(3) Cons have "fst x = 0 \<or> (\<exists>e \<in> set xs'. fst e = 0)" by fastforce
  with le have x0: "fst x = 0" by (metis le_zero_eq)
  from assms(2) Cons have "fst x \<notin> fst ` set xs'" by simp
  with x0 have "\<forall>e \<in> set xs'. fst e \<noteq> 0" by (metis imageI)
  then have pos: "\<forall>e \<in> set xs'. 0 < fst e" by simp
  from x0 have "x = (0, snd x)" by (metis prod.collapse)
  with Cons pos show ?thesis by blast
qed

lemma entries_head:
  assumes "distinct (map fst lh)" "0 \<in> fst ` set lh"
  shows "\<exists>v. entries lh = (0, v) # filter (\<lambda>e. 0 < fst e) (entries lh) \<and> map_of lh 0 = Some v"
proof -
  have s: "sorted (map fst (entries lh))" by (simp add: entries_def)
  have "mset (map fst (entries lh)) = mset (map fst lh)" by (simp add: entries_def)
  from mset_eq_imp_distinct_iff [OF this] assms(1)
  have d: "distinct (map fst (entries lh))" by simp
  have st: "set (entries lh) = set lh" by (simp add: entries_def)
  have z: "0 \<in> fst ` set (entries lh)" using assms(2) st by simp
  from sorted_keys_head [OF s d z] obtain v xs' where
    xs: "entries lh = (0, v) # xs'" and pos: "\<forall>e \<in> set xs'. 0 < fst e" by blast
  from pos have "filter (\<lambda>e. 0 < fst e) xs' = xs'" by simp
  then have f: "filter (\<lambda>e. 0 < fst e) ((0, v) # xs') = xs'" by simp
  have "(0, v) \<in> set (entries lh)" by (simp add: xs)
  then have "(0, v) \<in> set lh" by (simp only: st)
  with assms(1) have m: "map_of lh 0 = Some v" by simp
  have "entries lh = (0, v) # filter (\<lambda>e. 0 < fst e) (entries lh)"
    by (simp only: xs f)
  with m show ?thesis by blast
qed

lemma filter_update_zero:
  "filter (\<lambda>e. 0 < fst e) (AList.update (0::nat) c lh) = filter (\<lambda>e. 0 < fst e) lh"
  by (induction lh) auto

lemma signatureOf_update_zero: "signatureOf (AList.update 0 c lh) = signatureOf lh"
  by (simp add: signatureOf_def entries_def filter_sort filter_update_zero)

lemma join_Cons: "ys \<noteq> [] \<Longrightarrow> join sep (x # ys) = x @ sep @ join sep ys"
  by (cases ys) simp_all

lemma levelPart_zero: "levelPart (0, c) = ''L0:'' @ bigint_toString c"
  by (simp add: levelPart_def string_of_nat.simps [of 0] digit_char_def)

lemma idOf_split:
  assumes "distinct (map fst lh)" "0 \<in> fst ` set lh" "Suc 0 \<in> fst ` set lh"
  shows "\<exists>v. map_of lh 0 = Some v \<and>
           idOf lh = ''L0:'' @ bigint_toString v @ ''-'' @ signatureOf lh"
proof -
  from entries_head [OF assms(1,2)] obtain v where
    e: "entries lh = (0, v) # filter (\<lambda>e. 0 < fst e) (entries lh)" and m: "map_of lh 0 = Some v"
    by blast
  from assms(3) obtain w where "(Suc 0, w) \<in> set lh" by auto
  then have "(Suc 0, w) \<in> set (filter (\<lambda>e. 0 < fst e) (entries lh))"
    by (simp add: entries_def)
  then have "filter (\<lambda>e. 0 < fst e) (entries lh) \<noteq> []" by (metis empty_iff empty_set)
  then have ne: "map levelPart (filter (\<lambda>e. 0 < fst e) (entries lh)) \<noteq> []"
    by (simp only: map_is_Nil_conv not_False_eq_True)
  have "idOf lh = join ''-'' (levelPart (0, v) # map levelPart (filter (\<lambda>e. 0 < fst e) (entries lh)))"
    by (subst idOf_def, subst e) simp
  also have "\<dots> = ''L0:'' @ bigint_toString v @ ''-'' @ signatureOf lh"
    by (simp only: join_Cons [OF ne] levelPart_zero signatureOf_def append_assoc)
  finally show ?thesis using m by blast
qed

lemma idOf_disambiguated:
  assumes "distinct (map fst lh)" "0 \<in> fst ` set lh" "Suc 0 \<in> fst ` set lh"
  shows "idOf (AList.update 0 c lh) = ''L0:'' @ bigint_toString c @ ''-'' @ signatureOf lh"
proof -
  have d: "distinct (map fst (AList.update 0 c lh))" using assms(1) by (simp add: distinct_update)
  have k: "fst ` set (AList.update 0 c lh) = insert 0 (fst ` set lh)" by (simp add: dom_update)
  from idOf_split [OF d] k assms(2,3) obtain v where
    "map_of (AList.update 0 c lh) 0 = Some v"
    "idOf (AList.update 0 c lh) = ''L0:'' @ bigint_toString v @ ''-'' @ signatureOf (AList.update 0 c lh)"
    by auto
  then show ?thesis by (simp add: update_conv' signatureOf_update_zero)
qed

section \<open>Disambiguating mode counts the occurrences of a signature\<close>

lemma counterOf_update [simp]: "counterOf (AList.update s c cs) s = c"
  by (simp add: counterOf_def update_conv')

lemma finish_disambiguating:
  "finish a True st t =
     (idOf (AList.update 0 (counterOf (STRUCTURE_HASH_COUNTER st) (signatureOf (levelHashes t)))
        (levelHashes t)),
      st\<lparr>GLOBAL_KEY_MAP := keyBits t,
         OBJECT_SIGNATURE_CACHE := (OBJECT_SIGNATURE_CACHE st)(a \<mapsto> signatureOf (levelHashes t)),
         STRUCTURE_HASH_COUNTER :=
           AList.update (signatureOf (levelHashes t))
             (counterOf (STRUCTURE_HASH_COUNTER st) (signatureOf (levelHashes t)) + 1)
             (STRUCTURE_HASH_COUNTER st),
         STRUCTURE_INFO_CACHE := (STRUCTURE_INFO_CACHE st)(a := None)\<rparr>)"
  by (simp add: finish_def Let_def)

lemma successiveIds_counts:
  assumes vals: "\<forall>v \<in> set vs. \<exists>a. v = JRef a \<and> \<not> emptyContainer h a \<and>
                   traversalSignature xx h fuel v km0 = Some sig"
  shows "effective config st \<Longrightarrow> bitOf xx (GLOBAL_KEY_MAP st) = bitOf xx km0 \<Longrightarrow>
         counterOf (STRUCTURE_HASH_COUNTER st) sig = int c \<Longrightarrow>
         \<exists>st'. successiveIds xx h fuel vs config st =
           Some (map (\<lambda>i. ''L0:'' @ bigint_toString (int i) @ ''-'' @ sig) [c..<c + length vs], st')"
  using vals
proof (induction vs arbitrary: st c)
  case Nil
  then show ?case by simp
next
  case (Cons v vs)
  from Cons.prems(4) obtain a where v: "v = JRef a" and ne: "\<not> emptyContainer h a"
    and sg: "traversalSignature xx h fuel v km0 = Some sig" by auto
  from sg obtain t0 where
    r0: "processStructure xx h fuel (JRef a) 0 []
           \<lparr>levelHashes = [], objectMap = Map.empty, keyBits = km0\<rparr> = Some t0" and
    s0: "signatureOf (levelHashes t0) = sig"
    by (auto simp: traversalSignature_def v)
  from processStructure_bitOf_eq [OF r0, of "startTraversal st"] Cons.prems(2)
  obtain t where r: "processStructure xx h fuel (JRef a) 0 [] (startTraversal st) = Some t"
    and lh: "levelHashes t = levelHashes t0"
    and bt: "bitOf xx (keyBits t) = bitOf xx (keyBits t0)"
    by (auto simp: startTraversal_def)
  from processStructure_bitOf [OF r0] have b0: "bitOf xx (keyBits t0) = bitOf xx km0" by simp
  note lv = root_levels [OF r ne]
  let ?st1 = "snd (finish a True st t)"
  have g: "generateStructureId xx h fuel v config st =
      Some (''L0:'' @ bigint_toString (int c) @ ''-'' @ sig, ?st1)"
    using Cons.prems(1,3) r idOf_disambiguated [OF lv] lh s0
    by (simp add: v generateStructureId_ref [OF ne] finish_disambiguating)
  have e1: "effective config ?st1"
    using Cons.prems(1) by (cases config) (simp_all add: finish_disambiguating effective_def)
  have b1: "bitOf xx (GLOBAL_KEY_MAP ?st1) = bitOf xx km0"
    using bt b0 by (simp add: finish_disambiguating)
  have c1: "counterOf (STRUCTURE_HASH_COUNTER ?st1) sig = int (Suc c)"
    using Cons.prems(3) lh s0 by (simp add: finish_disambiguating)
  from Cons.prems(4) have rest: "\<forall>v \<in> set vs. \<exists>a. v = JRef a \<and> \<not> emptyContainer h a \<and>
                   traversalSignature xx h fuel v km0 = Some sig" by simp
  from Cons.IH [OF e1 b1 c1 rest] obtain st' where
    "successiveIds xx h fuel vs config ?st1 =
       Some (map (\<lambda>i. ''L0:'' @ bigint_toString (int i) @ ''-'' @ sig) [Suc c..<Suc c + length vs], st')"
    by blast
  moreover have "[c..<Suc (c + length vs)] = c # [Suc c..<Suc (c + length vs)]"
    by (rule upt_conv_Cons) simp
  ultimately show ?case using g by (simp del: upt_Suc)
qed

lemma sequence_ids_distinct:
  "distinct (map (\<lambda>i. ''L0:'' @ bigint_toString (int i) @ ''-'' @ sig) [0..<n])"
proof -
  have "inj (\<lambda>i. ''L0:'' @ bigint_toString (int i) @ ''-'' @ sig)"
  proof (rule injI)
    fix i j :: nat
    assume "''L0:'' @ bigint_toString (int i) @ ''-'' @ sig
          = ''L0:'' @ bigint_toString (int j) @ ''-'' @ sig"
    then have "bigint_toString (int i) = bigint_toString (int j)" by simp
    then show "i = j" using bigint_toString_inj by fastforce
  qed
  then show ?thesis by (simp add: distinct_map inj_on_def)
qed

text \<open>
  C2, amended to non-empty records and sequences. In disambiguating mode, when every value
  of a sequence of calls is a non-empty record or sequence whose traversal computes the
  one structural signature \<open>sig\<close> and \<open>sig\<close> is unregistered at the start, the calls
  return, in call order, the identifiers \<open>L0:0-sig\<close>, \<open>L0:1-sig\<close>, ...: the segments
  of depth 1 and more are the same in all of them, the depth-0 segment carries the number
  of the call, and the identifiers are pairwise distinct.
\<close>

theorem disambiguation_sequence:
  assumes "effective config st"
    and "\<forall>v \<in> set vs. \<exists>a. v = JRef a \<and> \<not> emptyContainer h a \<and>
           traversalSignature xxHash32 h fuel v (GLOBAL_KEY_MAP st) = Some sig"
    and "map_of (STRUCTURE_HASH_COUNTER st) sig = None"
  shows "(\<exists>st'. successiveIds xxHash32 h fuel vs config st =
            Some (map (\<lambda>i. ''L0:'' @ bigint_toString (int i) @ ''-'' @ sig) [0..<length vs], st'))
    \<and> distinct (map (\<lambda>i. ''L0:'' @ bigint_toString (int i) @ ''-'' @ sig) [0..<length vs])"
proof -
  have "counterOf (STRUCTURE_HASH_COUNTER st) sig = int 0"
    using assms(3) by (simp add: counterOf_def)
  from successiveIds_counts [OF assms(2) assms(1) refl this] sequence_ids_distinct
  show ?thesis by simp
qed

lemma string_of_Suc0: "string_of_nat (Suc 0) = ''1''"
  by (simp add: string_of_nat.simps digit_char_def)

lemma twoRecord_signatures:
  "traversalSignature xxZero twoRecordHeap 2 (JRef 0) [] = Some ''L1:3''"
  "traversalSignature xxZero twoRecordHeap 2 (JRef 1) [] = Some ''L1:3''"
  by code_simp+

theorem disambiguation_sequence_witness:
  "\<exists>st'. successiveIds xxZero twoRecordHeap 2 [JRef 0, JRef 1]
      (Some \<lparr>newIdOnCollision = Some True\<rparr>) initialState
    = Some ([''L0:0-L1:3'', ''L0:1-L1:3''], st')"
proof -
  have e: "effective (Some \<lparr>newIdOnCollision = Some True\<rparr>) initialState"
    by (simp add: effective_def)
  have ne: "\<not> emptyContainer twoRecordHeap 0" "\<not> emptyContainer twoRecordHeap 1"
    by (simp_all add: emptyContainer_def deref_def twoRecordHeap_def)
  have km: "GLOBAL_KEY_MAP initialState = []" "STRUCTURE_HASH_COUNTER initialState = []"
    by (simp_all add: initialState_def)
  have vals: "\<forall>v \<in> set [JRef 0, JRef 1]. \<exists>a. v = JRef a \<and> \<not> emptyContainer twoRecordHeap a \<and>
      traversalSignature xxZero twoRecordHeap 2 v (GLOBAL_KEY_MAP initialState) = Some ''L1:3''"
    using ne twoRecord_signatures by (simp add: km)
  have c: "map_of (STRUCTURE_HASH_COUNTER initialState) ''L1:3'' = None" by (simp add: km)
  have up: "[0..<length [JRef 0, JRef 1]] = [0, 1]" by (simp add: upt_conv_Cons)
  from disambiguation_sequence [OF e vals c] show ?thesis
    unfolding up
    by (simp add: bigint_toString_def string_of_small string_of_Suc0 del: successiveIds.simps)
qed

text \<open>
  C2, as the claim states it, fails for values that are not traversed. Two calls on the
  scalar 42 in disambiguating mode, from the initial state, return the same identifier
  \<open>L0:1-L1:1\<close> twice and leave the state unchanged: a scalar root returns before the
  collision counter is read.
\<close>

theorem scalar_sequence_counterexample:
  "successiveIds xxZero oneKeyHeap 2 [JNumber, JNumber]
      (Some \<lparr>newIdOnCollision = Some True\<rparr>) initialState
     = Some ([''L0:1-L1:1'', ''L0:1-L1:1''], initialState)
   \<and> map_option fst (getStructureSignature xxZero oneKeyHeap 2 JNumber initialState)
     = Some ''type:number''
   \<and> STRUCTURE_HASH_COUNTER initialState = []"
  by (simp add: generateStructureId_nonref scalarId_def typeBit_values bigint_toString_def
      string_of_small string_of_Suc0 getStructureSignature_nonref initialState_def)

section \<open>What every reachable state satisfies\<close>

lemma keyBits_distinct_inv:
  "stepInvariant xx h (\<lambda>t t'. distinct (map fst (keyBits t)) \<longrightarrow> distinct (map fst (keyBits t')))"
  unfolding stepInvariant_def
  by (auto simp: getBit_def Let_def distinct_update split: option.splits)

lemma processStructure_keyBits_distinct:
  "processStructure xx h n v level path t = Some t' \<Longrightarrow> distinct (map fst (keyBits t)) \<Longrightarrow>
   distinct (map fst (keyBits t'))"
  using processStructure_preserve [OF keyBits_distinct_inv] by blast

lemma startTraversal_simps [simp]:
  "levelHashes (startTraversal st) = []"
  "objectMap (startTraversal st) = Map.empty"
  "keyBits (startTraversal st) = GLOBAL_KEY_MAP st"
  by (simp_all add: startTraversal_def)

lemma finish_fields:
  "GLOBAL_KEY_MAP (snd (finish a d st t)) = keyBits t"
  "globalConfig (snd (finish a d st t)) = globalConfig st"
  "d \<Longrightarrow> OBJECT_ID_CACHE (snd (finish a d st t)) = OBJECT_ID_CACHE st"
  "\<not> d \<Longrightarrow> OBJECT_ID_CACHE (snd (finish a d st t)) = (OBJECT_ID_CACHE st)(a \<mapsto> idOf (levelHashes t))"
  "\<not> d \<Longrightarrow> STRUCTURE_HASH_COUNTER (snd (finish a d st t)) = STRUCTURE_HASH_COUNTER st"
  "d \<Longrightarrow> STRUCTURE_HASH_COUNTER (snd (finish a d st t)) =
     AList.update (signatureOf (levelHashes t))
       (counterOf (STRUCTURE_HASH_COUNTER st) (signatureOf (levelHashes t)) + 1)
       (STRUCTURE_HASH_COUNTER st)"
  "\<not> d \<Longrightarrow> fst (finish a d st t) = idOf (levelHashes t)"
  "d \<Longrightarrow> fst (finish a d st t) =
     idOf (AList.update 0 (counterOf (STRUCTURE_HASH_COUNTER st) (signatureOf (levelHashes t)))
       (levelHashes t))"
  by (simp_all add: finish_def Let_def)

text \<open>A traversal from a key map with the same bits computes the same accumulators.\<close>

lemma fresh_transfer:
  assumes run: "processStructure xx h n v 0 [] (startTraversal st) = Some t"
    and bits: "bitOf xx (GLOBAL_KEY_MAP st') = bitOf xx (GLOBAL_KEY_MAP st)"
  shows "\<exists>t'. processStructure xx h n v 0 [] (startTraversal st') = Some t' \<and>
           levelHashes t' = levelHashes t"
  using processStructure_bitOf_eq [OF run, of "startTraversal st'"] bits by auto

lemma stateInvariant_keys:
  assumes inv: "stateInvariant xx h st"
    and bits: "bitOf xx (GLOBAL_KEY_MAP st') = bitOf xx (GLOBAL_KEY_MAP st)"
    and d: "distinct (map fst (GLOBAL_KEY_MAP st'))"
    and c: "STRUCTURE_HASH_COUNTER st' = STRUCTURE_HASH_COUNTER st \<or>
            (\<exists>s v. STRUCTURE_HASH_COUNTER st' = AList.update s v (STRUCTURE_HASH_COUNTER st))"
    and cache: "\<forall>a i. OBJECT_ID_CACHE st' a = Some i \<longrightarrow> OBJECT_ID_CACHE st a = Some i \<or>
            (\<exists>n t. processStructure xx h n (JRef a) 0 [] (startTraversal st) = Some t \<and>
               i = idOf (levelHashes t))"
  shows "stateInvariant xx h st'"
proof -
  have "distinct (map fst (STRUCTURE_HASH_COUNTER st'))"
    using c inv by (auto simp: stateInvariant_def distinct_update)
  moreover have "\<exists>n t. processStructure xx h n (JRef a) 0 [] (startTraversal st') = Some t \<and>
               i = idOf (levelHashes t)" if "OBJECT_ID_CACHE st' a = Some i" for a i
  proof -
    from inv have old: "\<And>a i. OBJECT_ID_CACHE st a = Some i \<Longrightarrow>
        \<exists>n t. processStructure xx h n (JRef a) 0 [] (startTraversal st) = Some t \<and>
               i = idOf (levelHashes t)"
      unfolding stateInvariant_def by blast
    from cache that have "OBJECT_ID_CACHE st a = Some i \<or>
        (\<exists>n t. processStructure xx h n (JRef a) 0 [] (startTraversal st) = Some t \<and>
               i = idOf (levelHashes t))" by blast
    with old obtain n t where
      r: "processStructure xx h n (JRef a) 0 [] (startTraversal st) = Some t" and
      i: "i = idOf (levelHashes t)"
      by blast
    from fresh_transfer [OF r bits] obtain t' where
      "processStructure xx h n (JRef a) 0 [] (startTraversal st') = Some t'"
      "levelHashes t' = levelHashes t" by blast
    with i have "processStructure xx h n (JRef a) 0 [] (startTraversal st') = Some t' \<and>
        i = idOf (levelHashes t')" by simp
    then show ?thesis by blast
  qed
  ultimately show ?thesis using d by (simp add: stateInvariant_def)
qed

lemma generateStructureId_invariant:
  assumes inv: "stateInvariant xx h st"
    and g: "generateStructureId xx h fuel obj config st = Some (i, st')"
  shows "stateInvariant xx h st'"
proof (cases "\<exists>a. obj = JRef a \<and> \<not> emptyContainer h a")
  case False
  with g have "st' = st"
    by (cases "\<exists>a. obj = JRef a")
       (auto simp: generateStructureId_nonref generateStructureId_empty)
  with inv show ?thesis by simp
next
  case True
  then obtain a where obj: "obj = JRef a" and ne: "\<not> emptyContainer h a" by blast
  show ?thesis
  proof (cases "\<not> effective config st \<and> OBJECT_ID_CACHE st a \<noteq> None")
    case True
    with g obj ne have "st' = st" by (simp add: generateStructureId_ref)
    with inv show ?thesis by simp
  next
    case False
    with g obj ne obtain t where
      run: "processStructure xx h fuel (JRef a) 0 [] (startTraversal st) = Some t" and
      st': "st' = snd (finish a (effective config st) st t)"
      by (auto simp: generateStructureId_ref)
    from processStructure_bitOf [OF run]
    have bits: "bitOf xx (GLOBAL_KEY_MAP st') = bitOf xx (GLOBAL_KEY_MAP st)"
      by (simp add: st' finish_fields)
    have d: "distinct (map fst (GLOBAL_KEY_MAP st'))"
      using processStructure_keyBits_distinct [OF run] inv
      by (simp add: st' finish_fields stateInvariant_def)
    show ?thesis
    proof (rule stateInvariant_keys [OF inv bits d])
      show "STRUCTURE_HASH_COUNTER st' = STRUCTURE_HASH_COUNTER st \<or>
            (\<exists>s v. STRUCTURE_HASH_COUNTER st' = AList.update s v (STRUCTURE_HASH_COUNTER st))"
        by (cases "effective config st") (auto simp: st' finish_fields)
      show "\<forall>b j. OBJECT_ID_CACHE st' b = Some j \<longrightarrow> OBJECT_ID_CACHE st b = Some j \<or>
            (\<exists>n t. processStructure xx h n (JRef b) 0 [] (startTraversal st) = Some t \<and>
               j = idOf (levelHashes t))"
        using run by (cases "effective config st") (auto simp: st' finish_fields)
    qed
  qed
qed

lemma stateInvariant_cong:
  assumes "stateInvariant xx h st"
    and "GLOBAL_KEY_MAP st' = GLOBAL_KEY_MAP st"
    and "OBJECT_ID_CACHE st' = OBJECT_ID_CACHE st"
    and "STRUCTURE_HASH_COUNTER st' = STRUCTURE_HASH_COUNTER st \<or>
            (\<exists>s v. STRUCTURE_HASH_COUNTER st' = AList.update s v (STRUCTURE_HASH_COUNTER st))"
  shows "stateInvariant xx h st'"
  using assms by (intro stateInvariant_keys [OF assms(1)]) (auto simp: stateInvariant_def)

lemma getStructureSignature_invariant:
  assumes inv: "stateInvariant xx h st"
    and g: "getStructureSignature xx h fuel obj st = Some (s, st')"
  shows "stateInvariant xx h st'"
proof (cases "\<exists>a. obj = JRef a")
  case False
  with g inv show ?thesis by (simp add: getStructureSignature_nonref)
next
  case True
  then obtain a where obj: "obj = JRef a" by blast
  show ?thesis
  proof (cases "OBJECT_SIGNATURE_CACHE st a")
    case (Some c)
    with g inv obj show ?thesis by (simp add: getStructureSignature_ref)
  next
    case None
    with g obj obtain i st1 where
      g1: "generateStructureId xx h fuel (JRef a) (Some \<lparr>newIdOnCollision = Some False\<rparr>) st
             = Some (i, st1)" and
      st': "st' = st1\<lparr>OBJECT_SIGNATURE_CACHE := (OBJECT_SIGNATURE_CACHE st1)(a \<mapsto> stripL0 i)\<rparr>"
      by (auto simp: getStructureSignature_ref split: option.splits)
    from generateStructureId_invariant [OF inv g1] show ?thesis
      by (rule stateInvariant_cong) (simp_all add: st')
  qed
qed

lemma registerStructure_invariant:
  assumes inv: "stateInvariant xx h st"
    and g: "registerStructure xx h fuel obj cnt st = Some st'"
  shows "stateInvariant xx h st'"
proof -
  from g obtain s st1 where g1: "getStructureSignature xx h fuel obj st = Some (s, st1)"
    and st': "st' = st1\<lparr>STRUCTURE_HASH_COUNTER := AList.update s cnt (STRUCTURE_HASH_COUNTER st1)\<rparr>"
    by (auto simp: registerStructure_def split: option.splits)
  from getStructureSignature_invariant [OF inv g1] show ?thesis
    by (rule stateInvariant_cong) (auto simp: st')
qed

lemma registerStructures_invariant:
  "stateInvariant xx h st \<Longrightarrow> registerStructures xx h fuel rs st = Some st' \<Longrightarrow>
   stateInvariant xx h st'"
proof (induction rs arbitrary: st)
  case Nil
  then show ?case by simp
next
  case (Cons r rs)
  obtain v c where r: "r = (v, c)" by (cases r)
  from Cons.prems(2) obtain st1 where
    1: "registerStructure xx h fuel v c st = Some st1" and
    2: "registerStructures xx h fuel rs st1 = Some st'"
    by (auto simp: r split: option.splits)
  from Cons.IH [OF registerStructure_invariant [OF Cons.prems(1) 1] 2] show ?case .
qed

lemma registerStructureSignatures_invariant:
  "stateInvariant xx h st \<Longrightarrow> stateInvariant xx h (registerStructureSignatures sigs st)"
proof (induction sigs arbitrary: st)
  case Nil
  then show ?case by simp
next
  case (Cons sg sigs)
  obtain s c where sg: "sg = (s, c)" by (cases sg)
  have "stateInvariant xx h
          (st\<lparr>STRUCTURE_HASH_COUNTER := AList.update s c (STRUCTURE_HASH_COUNTER st)\<rparr>)"
    by (rule stateInvariant_cong [OF Cons.prems]) auto
  from Cons.IH [OF this] show ?case by (simp add: sg)
qed

lemma getStructureInfo_ref:
  "STRUCTURE_INFO_CACHE st a = None \<Longrightarrow>
   getStructureInfo xx h fuel (JRef a) config st =
     (case (case OBJECT_SIGNATURE_CACHE st a of
              Some s \<Rightarrow> Some (s, st)
            | None \<Rightarrow>
                (case generateStructureId xx h fuel (JRef a)
                        (Some \<lparr>newIdOnCollision = Some False\<rparr>) st of
                   None \<Rightarrow> None
                 | Some (i, st1) \<Rightarrow> Some (stripL0 i, st1))) of
        None \<Rightarrow> None
      | Some (sg, s1) \<Rightarrow>
          (case (if effective config st
                 then Some (join ''-'' [''L0:'' @ bigint_toString
                              (counterOf (STRUCTURE_HASH_COUNTER s1) sg), sg], s1)
                 else (case OBJECT_ID_CACHE s1 a of
                         Some i \<Rightarrow> Some (i, s1)
                       | None \<Rightarrow>
                           generateStructureId xx h fuel (JRef a)
                             (Some \<lparr>newIdOnCollision = Some False\<rparr>) s1)) of
             None \<Rightarrow> None
           | Some (i, s2) \<Rightarrow>
               Some (\<lparr>id_info = i, levels = calculateIdLevels i,
                      collisionCount = counterOf (STRUCTURE_HASH_COUNTER s1) sg\<rparr>,
                     s2\<lparr>STRUCTURE_INFO_CACHE := (STRUCTURE_INFO_CACHE s2)(a \<mapsto>
                          \<lparr>id_info = i, levels = calculateIdLevels i,
                           collisionCount = counterOf (STRUCTURE_HASH_COUNTER s1) sg\<rparr>)\<rparr>)))"
  by (simp add: getStructureInfo_def Let_def effective_def counterOf_def split: option.splits prod.splits)

lemma getStructureInfo_invariant:
  assumes inv: "stateInvariant xx h st"
    and g: "getStructureInfo xx h fuel obj config st = Some (r, st')"
  shows "stateInvariant xx h st'"
proof (cases "\<exists>a. obj = JRef a")
  case False
  with g obtain i where "generateStructureId xx h fuel obj
      (Some \<lparr>newIdOnCollision = Some False\<rparr>) st = Some (i, st')"
    by (cases obj) (auto simp: getStructureInfo_def split: option.splits)
  from generateStructureId_invariant [OF inv this] show ?thesis .
next
  case True
  then obtain a where obj: "obj = JRef a" by blast
  let ?stable = "Some \<lparr>newIdOnCollision = Some False\<rparr>"
  show ?thesis
  proof (cases "STRUCTURE_INFO_CACHE st a")
    case (Some cached)
    with g inv obj show ?thesis by (simp add: getStructureInfo_def)
  next
    case None
    have step: "\<And>s i s'. stateInvariant xx h s \<Longrightarrow>
        generateStructureId xx h fuel (JRef a) ?stable s = Some (i, s') \<Longrightarrow> stateInvariant xx h s'"
      by (rule generateStructureId_invariant)
    let ?first = "(case OBJECT_SIGNATURE_CACHE st a of
                 Some s \<Rightarrow> Some (s, st)
               | None \<Rightarrow> (case generateStructureId xx h fuel (JRef a) ?stable st of
                            None \<Rightarrow> None | Some (i, st1) \<Rightarrow> Some (stripL0 i, st1)))"
    from g obj have g': "getStructureInfo xx h fuel (JRef a) config st = Some (r, st')" by simp
    obtain sg s1 where first: "?first = Some (sg, s1)"
      using g' unfolding getStructureInfo_ref [OF None]
      by (cases ?first) auto
    have inv1: "stateInvariant xx h s1"
    proof (cases "OBJECT_SIGNATURE_CACHE st a")
      case (Some s)
      with first have "s1 = st" by simp
      with inv show ?thesis by simp
    next
      case None
      with first obtain i where
        "generateStructureId xx h fuel (JRef a) ?stable st = Some (i, s1)"
        by (cases "generateStructureId xx h fuel (JRef a) ?stable st") auto
      from step [OF inv this] show ?thesis .
    qed
    let ?second = "(if effective config st
                 then Some (join ''-'' [''L0:'' @ bigint_toString
                              (counterOf (STRUCTURE_HASH_COUNTER s1) sg), sg], s1)
                 else (case OBJECT_ID_CACHE s1 a of
                         Some i \<Rightarrow> Some (i, s1)
                       | None \<Rightarrow> generateStructureId xx h fuel (JRef a) ?stable s1))"
    from g' have g2: "(case ?second of None \<Rightarrow> None
           | Some (i, s2) \<Rightarrow>
               Some (\<lparr>id_info = i, levels = calculateIdLevels i,
                      collisionCount = counterOf (STRUCTURE_HASH_COUNTER s1) sg\<rparr>,
                     s2\<lparr>STRUCTURE_INFO_CACHE := (STRUCTURE_INFO_CACHE s2)(a \<mapsto>
                          \<lparr>id_info = i, levels = calculateIdLevels i,
                           collisionCount = counterOf (STRUCTURE_HASH_COUNTER s1) sg\<rparr>)\<rparr>))
         = Some (r, st')"
      unfolding getStructureInfo_ref [OF None] first by simp
    then obtain i s2 where second: "?second = Some (i, s2)"
      by (cases ?second) auto
    from g2 have st': "st' = s2\<lparr>STRUCTURE_INFO_CACHE := (STRUCTURE_INFO_CACHE s2)(a \<mapsto>
                          \<lparr>id_info = i, levels = calculateIdLevels i,
                           collisionCount = counterOf (STRUCTURE_HASH_COUNTER s1) sg\<rparr>)\<rparr>"
      unfolding second by auto
    have inv2: "stateInvariant xx h s2"
    proof (cases "effective config st")
      case True
      with second have "s2 = s1" by simp
      with inv1 show ?thesis by simp
    next
      case False
      show ?thesis
      proof (cases "OBJECT_ID_CACHE s1 a")
        case (Some j)
        with False second have "s2 = s1" by simp
        with inv1 show ?thesis by simp
      next
        case None
        with False second have
          "generateStructureId xx h fuel (JRef a) ?stable s1 = Some (i, s2)" by simp
        from step [OF inv1 this] show ?thesis .
      qed
    qed
    show ?thesis
      by (rule stateInvariant_cong [OF inv2]) (simp_all add: st')
  qed
qed

lemma resetState_invariant: "stateInvariant xx h (resetState st)"
  by (simp add: stateInvariant_def resetState_def)

lemma importKeyMap_distinct:
  "importKeyMap km st = (r, st') \<Longrightarrow> distinct (map fst (GLOBAL_KEY_MAP st)) \<Longrightarrow>
   distinct (map fst (GLOBAL_KEY_MAP st'))"
  by (induction km st rule: importKeyMap.induct)
     (auto simp: distinct_update split: option.splits)

lemma importCounters_distinct:
  "distinct (map fst (STRUCTURE_HASH_COUNTER st)) \<Longrightarrow>
   distinct (map fst (STRUCTURE_HASH_COUNTER (importCounters cs st)))"
  by (induction cs st rule: importCounters.induct) (auto simp: distinct_update)

lemma importStructureState_fields:
  assumes "importStructureState snapshot st = (r, st')"
  shows "OBJECT_ID_CACHE st' = Map.empty" and "globalConfig st' = globalConfig st"
    and "distinct (map fst (GLOBAL_KEY_MAP st'))"
    and "distinct (map fst (STRUCTURE_HASH_COUNTER st'))"
proof -
  obtain r1 st1 where k: "importKeyMap (keyMap snapshot) (resetState st) = (r1, st1)"
    by (cases "importKeyMap (keyMap snapshot) (resetState st)")
  note f = importKeyMap_frame [OF k]
  have d1: "distinct (map fst (GLOBAL_KEY_MAP st1))"
    by (rule importKeyMap_distinct [OF k]) (simp add: resetState_def)
  have c1: "distinct (map fst (STRUCTURE_HASH_COUNTER st1))"
    using f by (simp add: resetState_def)
  from assms k have "st' = st1 \<or> st' = importCounters (collisionCounters snapshot) st1"
    by (auto simp: importStructureState_def Let_def split: sum.splits)
  then show "OBJECT_ID_CACHE st' = Map.empty" and "globalConfig st' = globalConfig st"
    and "distinct (map fst (GLOBAL_KEY_MAP st'))"
    and "distinct (map fst (STRUCTURE_HASH_COUNTER st'))"
    using f d1 c1 importCounters_frame [of "collisionCounters snapshot" st1]
      importCounters_distinct [OF c1, of "collisionCounters snapshot"]
    by (auto simp: resetState_def)
qed

lemma importStructureState_invariant:
  "importStructureState snapshot st = (r, st') \<Longrightarrow> stateInvariant xx h st'"
  using importStructureState_fields [of snapshot st r st']
  by (simp add: stateInvariant_def)

lemma reachable_invariant: "reachable xx h st \<Longrightarrow> stateInvariant xx h st"
proof (induction rule: reachable.induct)
  case initial
  show ?case by (simp add: stateInvariant_def initialState_def)
next
  case (generate st fuel obj config i st')
  from generateStructureId_invariant [OF generate.IH generate.hyps(2)] show ?case .
next
  case (signature st fuel obj s st')
  from getStructureSignature_invariant [OF signature.IH signature.hyps(2)] show ?case .
next
  case (register st fuel obj cnt st')
  from registerStructure_invariant [OF register.IH register.hyps(2)] show ?case .
next
  case (registerMany st fuel registrations st')
  from registerStructures_invariant [OF registerMany.IH registerMany.hyps(2)] show ?case .
next
  case (registerSignatures st signatures)
  from registerStructureSignatures_invariant [OF registerSignatures.IH] show ?case .
next
  case (info st fuel obj config r st')
  from getStructureInfo_invariant [OF info.IH info.hyps(2)] show ?case .
next
  case (reset st)
  show ?case by (rule resetState_invariant)
next
  case (importState st snapshot r st')
  from importStructureState_invariant [OF importState.hyps(2)] show ?case .
next
  case (configure st config)
  show ?case
    by (rule stateInvariant_cong [OF configure.IH]) (simp_all add: setStructureIdConfig_def)
qed

section \<open>Order independence\<close>

lemma shapeRel_simulation:
  assumes "inj_on f D"
  shows "simulation xx f D (\<lambda>t1 t2. (\<forall>a \<in> D. objectMap t2 (f a) = objectMap t1 a) \<and>
            levelHashes t2 = levelHashes t1 \<and> keyBits t2 = keyBits t1)"
  unfolding simulation_def
proof (intro conjI allI impI)
  fix t1 t2 :: traversal and a s b
  assume S: "(\<forall>a \<in> D. objectMap t2 (f a) = objectMap t1 a) \<and>
            levelHashes t2 = levelHashes t1 \<and> keyBits t2 = keyBits t1"
    and a: "a \<in> D" and "objectMap t1 a = None"
  show "\<forall>b \<in> D. objectMap (t2\<lparr>objectMap := (objectMap t2)(f a \<mapsto> s)\<rparr>) (f b) =
          objectMap (t1\<lparr>objectMap := (objectMap t1)(a \<mapsto> s)\<rparr>) b"
  proof
    fix b assume b: "b \<in> D"
    from assms a b have "f b = f a \<longleftrightarrow> b = a" by (auto dest: inj_onD)
    with S b show "objectMap (t2\<lparr>objectMap := (objectMap t2)(f a \<mapsto> s)\<rparr>) (f b) =
          objectMap (t1\<lparr>objectMap := (objectMap t1)(a \<mapsto> s)\<rparr>) b"
      by simp
  qed
qed (simp_all add: addHash_def bitStep_def)

lemma sameShape_emptyContainer:
  assumes "sameShape f D h1 h2" "a \<in> D"
  shows "emptyContainer h2 (f a) = emptyContainer h1 a"
    and "(case deref h2 (f a) of Object ps \<Rightarrow> ''{}'' | Array xs \<Rightarrow> ''[]'') =
         (case deref h1 a of Object ps \<Rightarrow> ''{}'' | Array xs \<Rightarrow> ''[]'')"
proof -
  from assms have s: "sameShapeObj f D (deref h1 a) (deref h2 (f a))"
    unfolding sameShape_def by metis
  show "emptyContainer h2 (f a) = emptyContainer h1 a"
  proof (cases "deref h1 a")
    case (Object ps)
    from sameShape_object_kind [OF assms Object] show ?thesis
      by (auto simp: emptyContainer_def Object)
  next
    case (Array xs)
    with s show ?thesis
      by (cases "deref h2 (f a)") (auto simp: emptyContainer_def)
  qed
  from s show "(case deref h2 (f a) of Object ps \<Rightarrow> ''{}'' | Array xs \<Rightarrow> ''[]'') =
         (case deref h1 a of Object ps \<Rightarrow> ''{}'' | Array xs \<Rightarrow> ''[]'')"
    by (cases "deref h1 a"; cases "deref h2 (f a)") simp_all
qed

lemma generateStructureId_value:
  assumes inv: "stateInvariant xx h st"
    and ne: "\<not> emptyContainer h a"
    and run: "processStructure xx h fuel (JRef a) 0 [] (startTraversal st) = Some t"
  shows "\<exists>s'. generateStructureId xx h fuel (JRef a) config st =
           Some (if effective config st
                 then idOf (AList.update 0
                        (counterOf (STRUCTURE_HASH_COUNTER st) (signatureOf (levelHashes t)))
                        (levelHashes t))
                 else idOf (levelHashes t), s')"
proof (cases "\<not> effective config st \<and> OBJECT_ID_CACHE st a \<noteq> None")
  case True
  then obtain i where i: "OBJECT_ID_CACHE st a = Some i" by blast
  with inv obtain n t' where
    t': "processStructure xx h n (JRef a) 0 [] (startTraversal st) = Some t'"
    and "i = idOf (levelHashes t')"
    unfolding stateInvariant_def by blast
  moreover from processStructure_fuel_indep [OF t' run] have "t' = t" .
  ultimately show ?thesis using True i
    by (simp add: generateStructureId_ref [OF ne])
next
  case False
  then show ?thesis
    using run
    by (cases "effective config st")
       (auto simp: generateStructureId_ref [OF ne] finish_def Let_def)
qed


lemma generateStructureId_config:
  assumes "generateStructureId xx h fuel obj config st = Some (i, st')"
  shows "globalConfig st' = globalConfig st"
proof (cases "\<exists>a. obj = JRef a \<and> \<not> emptyContainer h a")
  case False
  with assms show ?thesis
    by (cases "\<exists>a. obj = JRef a")
       (auto simp: generateStructureId_nonref generateStructureId_empty)
next
  case True
  then obtain a where obj: "obj = JRef a" and ne: "\<not> emptyContainer h a" by blast
  from assms show ?thesis
    unfolding obj generateStructureId_ref [OF ne]
    by (auto simp: finish_def Let_def split: if_splits)
qed

lemma generateStructureId_stable_again:
  assumes stable: "\<not> effective config st"
    and g: "generateStructureId xx h fuel (JRef a) config st = Some (i, st')"
  shows "\<exists>s. generateStructureId xx h fuel (JRef a) config st' = Some (i, s)"
proof (cases "emptyContainer h a")
  case True
  with g show ?thesis by (simp add: generateStructureId_empty)
next
  case ne: False
  have cfg: "effective config st' = effective config st"
    using generateStructureId_config [OF g] by (simp add: effective_def split: option.splits)
  show ?thesis
  proof (cases "OBJECT_ID_CACHE st a")
    case (Some j)
    with g stable have "st' = st" "j = i"
      by (simp_all add: generateStructureId_ref [OF ne])
    with g show ?thesis by simp
  next
    case None
    with g stable obtain t where
      "processStructure xx h fuel (JRef a) 0 [] (startTraversal st) = Some t"
      and f: "finish a False st t = (i, st')"
      by (auto simp: generateStructureId_ref [OF ne])
    from f have "OBJECT_ID_CACHE st' a = Some i"
      by (auto simp: finish_def Let_def)
    with stable cfg show ?thesis
      by (simp add: generateStructureId_ref [OF ne])
  qed
qed

text \<open>
  C1, as the claim states it, fails when the two records do not share their children in
  the same way. In \<open>A = {a: x, b: x}\<close> with \<open>x = {c: 1}\<close> the second visit of \<open>x\<close> is
  answered by the cycle tracker; in \<open>B = {a: {c: 1}, b: {c: 1}}\<close> both children are
  traversed. The key sets are the same and each child is a record \<open>{c: 1}\<close>, but with a
  hash that is constantly 0 the identifiers are \<open>L0:513-L1:259-L2:5\<close> and
  \<open>L0:513-L1:260-L2:6\<close>.
\<close>

theorem shared_child_counterexample:
  "map_option fst (generateStructureId xxZero sharedChildHeap 6 (JRef 0) None initialState)
     = Some ''L0:513-L1:259-L2:5''
   \<and> map_option fst (generateStructureId xxZero sharedChildHeap 6 (JRef 1) None initialState)
     = Some ''L0:513-L1:260-L2:6''
   \<and> sort (Object_keys (deref sharedChildHeap 0)) = sort (Object_keys (deref sharedChildHeap 1))
   \<and> deref sharedChildHeap 2 = deref sharedChildHeap 3
   \<and> deref sharedChildHeap 2 = deref sharedChildHeap 4"
  by code_simp

text \<open>
  C1, amended (order independence). The object graph is not changed between the calls,
  and the state is one that calls on this graph have reached. Two objects have the same
  shape when a one-to-one correspondence of the objects reachable from them carries
  records to records with the same key sets, whatever the insertion order of their
  properties, sequences to sequences of the same length, and children to children of
  the same category that correspond again; so the two graphs also share their children
  in the same way. Under either configuration, two objects of the same shape get the same
  identifier from \<open>generateStructureId\<close> called in the same state. In stable mode the
  identifier of the second object is also the same when it is asked for after the first,
  in the state that the first call left. (In disambiguating mode successive calls differ
  in their depth-0 segment, which counts them.)
\<close>

theorem order_independence:
  assumes reach: "reachable xxHash32 h st"
    and shape: "sameShape f D h h"
    and a: "a \<in> D"
    and fuel: "length h < fuel"
  shows "\<exists>i s1 s2. generateStructureId xxHash32 h fuel (JRef a) config st = Some (i, s1) \<and>
           generateStructureId xxHash32 h fuel (JRef (f a)) config st = Some (i, s2) \<and>
           (\<not> effective config st \<longrightarrow>
              (\<exists>s3. generateStructureId xxHash32 h fuel (JRef (f a)) config s1 = Some (i, s3)))"
proof -
  have same: "\<exists>i s1 s2. generateStructureId xxHash32 h fuel (JRef a) config s = Some (i, s1) \<and>
           generateStructureId xxHash32 h fuel (JRef (f a)) config s = Some (i, s2)"
    if inv: "stateInvariant xxHash32 h s" for s
  proof (cases "emptyContainer h a")
    case True
    with sameShape_emptyContainer [OF shape a] show ?thesis
      by (simp add: generateStructureId_empty)
  next
    case ne: False
    with sameShape_emptyContainer(1) [OF shape a] have ne': "\<not> emptyContainer h (f a)" by simp
    obtain t1 where
      t1: "processStructure xxHash32 h fuel (JRef a) 0 [] (startTraversal s) = Some t1"
      using processStructure_total [of h "startTraversal s" fuel xxHash32 "JRef a" 0 "[]"] fuel
      by (auto simp: startTraversal_def unvisited_empty)
    from shape have inj: "inj_on f D" by (simp add: sameShape_def)
    from processStructure_simulate [OF shapeRel_simulation [OF inj] shape _ _ t1,
        of "startTraversal s"] a
    obtain t2 where
      t2: "processStructure xxHash32 h fuel (JRef (f a)) 0 [] (startTraversal s) = Some t2"
      and lh: "levelHashes t2 = levelHashes t1"
      by (auto simp: valIn_def)
    from generateStructureId_value [OF inv ne t1, of config]
      generateStructureId_value [OF inv ne' t2, of config] lh
    show ?thesis by auto
  qed
  from reachable_invariant [OF reach] have inv: "stateInvariant xxHash32 h st" .
  from same [OF inv] obtain i s1 s2 where
    g1: "generateStructureId xxHash32 h fuel (JRef a) config st = Some (i, s1)"
    and g2: "generateStructureId xxHash32 h fuel (JRef (f a)) config st = Some (i, s2)"
    by blast
  have "\<exists>s3. generateStructureId xxHash32 h fuel (JRef (f a)) config s1 = Some (i, s3)"
    if stable: "\<not> effective config st"
  proof -
    from generateStructureId_invariant [OF inv g1] have "stateInvariant xxHash32 h s1" .
    from same [OF this] obtain j u1 u2 where
      "generateStructureId xxHash32 h fuel (JRef a) config s1 = Some (j, u1)"
      and u2: "generateStructureId xxHash32 h fuel (JRef (f a)) config s1 = Some (j, u2)"
      by blast
    with generateStructureId_stable_again [OF stable g1] have "j = i" by auto
    with u2 show ?thesis by blast
  qed
  with g1 g2 show ?thesis by blast
qed


theorem order_independence_witness:
  "reachable xxZero reorderedHeap initialState \<and>
   sameShape (\<lambda>a. 1) {0} reorderedHeap reorderedHeap \<and>
   length reorderedHeap < 3 \<and>
   (\<exists>i s1 s2 s3.
      generateStructureId xxZero reorderedHeap 3 (JRef 0) None initialState = Some (i, s1) \<and>
      generateStructureId xxZero reorderedHeap 3 (JRef 1) None initialState = Some (i, s2) \<and>
      generateStructureId xxZero reorderedHeap 3 (JRef 1) None s1 = Some (i, s3))"
proof -
  have k: "sort [''a'', ''b''] = sort [''b'', ''a'']" by code_simp
  have s: "sameShape (\<lambda>a. 1) {0} reorderedHeap reorderedHeap"
    using k by (simp add: sameShape_def reorderedHeap_def deref_def valIn_def getProp_def)
  have e: "\<not> effective None initialState"
    by (simp add: effective_def initialState_def truthy_def)
  have l: "length reorderedHeap < 3" by (simp add: reorderedHeap_def)
  from order_independence [OF reachable.initial s _ l, of 0 xxZero None] e
  show ?thesis using s l reachable.initial [of xxZero reorderedHeap] by auto
qed

section \<open>Unsupported categories\<close>

text \<open>
  C8, as the claim states it, fails for a symbol: \<open>TYPE_BITS\<close> has the entry
  \<open>symbol: 64\<close>. With a hash that is constantly 0, the record \<open>{s: Symbol()}\<close> gets
  \<open>L0:193-L1:66\<close> where the record \<open>{s: function}\<close> gets \<open>L0:129-L1:2\<close>: the symbol
  adds 64 to the accumulator of its parent's level and 64 to that of its own level, the
  function adds 0 to both. A symbol at the root gets \<open>L0:64-L1:64\<close>.
\<close>

theorem symbol_counterexample:
  "map_option fst (generateStructureId xxZero symbolRecordHeap 3 (JRef 0) None initialState)
     = Some ''L0:193-L1:66''
   \<and> map_option fst (generateStructureId xxZero symbolRecordHeap 3 (JRef 1) None initialState)
     = Some ''L0:129-L1:2''
   \<and> map_option fst (generateStructureId xxZero symbolRecordHeap 3 JSymbol None initialState)
     = Some ''L0:64-L1:64''"
  by code_simp

text \<open>
  C8, amended. For every value of the model (scalars, symbols, functions, and objects of
  any kind as plain data) the entry point returns an identifier, given fuel above the
  size of the heap. A function adds the zero fallback to the accumulator of its level
  and has the discriminant 0, which its parent multiplies by the position of the
  property; at the root it is \<open>L0:0-L1:0\<close>. A symbol adds its own discriminant 64 and is
  \<open>L0:64-L1:64\<close> at the root. An object of a foreign kind has the discriminant 128 of a
  record.
\<close>

theorem unsupported_contribution:
  assumes "length h < fuel"
  shows "(\<exists>i st'. generateStructureId xxHash32 h fuel v config st = Some (i, st'))
   \<and> processStructure xxHash32 h fuel JFunction level path t =
     Some (addHash level 0 (t\<lparr>levelHashes := seedLevel level (levelHashes t)\<rparr>))
   \<and> processStructure xxHash32 h fuel JSymbol level path t =
     Some (addHash level 64 (t\<lparr>levelHashes := seedLevel level (levelHashes t)\<rparr>))
   \<and> typeBit (getType h JFunction) = 0
   \<and> typeBit (getType h JSymbol) = 64
   \<and> generateStructureId xxHash32 h fuel JFunction config st = Some (''L0:0-L1:0'', st)
   \<and> generateStructureId xxHash32 h fuel JSymbol config st = Some (''L0:64-L1:64'', st)
   \<and> (\<forall>ps. deref h a = Object ps \<longrightarrow> typeBit (getType h (JRef a)) = 128)"
proof -
  from assms obtain n where fuel: "fuel = Suc n" by (cases fuel) simp_all
  have total: "\<exists>i st'. generateStructureId xxHash32 h fuel v config st = Some (i, st')"
    by (rule generateStructureId_total [OF assms])
  have run: "processStructure xxHash32 h fuel JFunction level path t =
       Some (addHash level 0 (t\<lparr>levelHashes := seedLevel level (levelHashes t)\<rparr>))"
    "processStructure xxHash32 h fuel JSymbol level path t =
       Some (addHash level 64 (t\<lparr>levelHashes := seedLevel level (levelHashes t)\<rparr>))"
    unfolding fuel by (simp_all add: processStructure_scalar enter_def typeBit_values)
  have root: "generateStructureId xxHash32 h fuel JFunction config st = Some (''L0:0-L1:0'', st)"
    "generateStructureId xxHash32 h fuel JSymbol config st = Some (''L0:64-L1:64'', st)"
    by (simp_all add: generateStructureId_nonref scalarId_def typeBit_values
        bigint_toString_def string_of_small)
  have bits: "typeBit (getType h JFunction) = 0" "typeBit (getType h JSymbol) = 64"
    "\<forall>ps. deref h a = Object ps \<longrightarrow> typeBit (getType h (JRef a)) = 128"
    by (simp_all add: typeBit_values)
  from total run root bits show ?thesis by simp
qed

theorem unsupported_contribution_witness:
  "length symbolRecordHeap < 3
   \<and> (\<exists>i st'. generateStructureId xxZero symbolRecordHeap 3 (JRef 1) None initialState
         = Some (i, st'))
   \<and> map_option levelHashes
       (processStructure xxZero symbolRecordHeap 3 JFunction 1 [''s'']
          \<lparr>levelHashes = [], objectMap = Map.empty, keyBits = []\<rparr>) = Some [(1, 2)]
   \<and> generateStructureId xxZero symbolRecordHeap 3 JFunction None initialState
       = Some (''L0:0-L1:0'', initialState)
   \<and> deref symbolRecordHeap 1 = Object [(''s'', JFunction)]
   \<and> typeBit (getType symbolRecordHeap (JRef 1)) = 128"
  using unsupported_contribution [of symbolRecordHeap 3 xxZero "JRef 1" None initialState 1
      "[''s'']" "\<lparr>levelHashes = [], objectMap = Map.empty, keyBits = []\<rparr>" 1]
  by (simp add: seedLevel_def addHash_def addLevel_def deref_def symbolRecordHeap_def)

section \<open>A per-call configuration replaces the global one\<close>

lemma empty_config_equation:
  assumes "newIdOnCollision (globalConfig st) = Some True"
  shows "generateStructureId xxHash32 h fuel (JRef a) (Some \<lparr>newIdOnCollision = None\<rparr>) st
      = map_option (\<lambda>(i, s). (i, s\<lparr>globalConfig := globalConfig st\<rparr>))
          (generateStructureId xxHash32 h fuel (JRef a) None
             (st\<lparr>globalConfig := \<lparr>newIdOnCollision = Some False\<rparr>\<rparr>))
    \<and> (\<forall>i st'. generateStructureId xxHash32 h fuel (JRef a)
                   (Some \<lparr>newIdOnCollision = None\<rparr>) st = Some (i, st') \<longrightarrow>
          STRUCTURE_HASH_COUNTER st' = STRUCTURE_HASH_COUNTER st \<and>
          (\<not> emptyContainer h a \<longrightarrow>
             OBJECT_ID_CACHE st' a = Some i \<and>
             (\<forall>c. OBJECT_ID_CACHE st a = Some c \<longrightarrow> i = c \<and> st' = st)))"
  by (cases "deref h a")
     (auto simp: generateStructureId_def isObject_def emptyContainer_def Let_def
           split: option.splits)

text \<open>
  C9. With the global configuration in disambiguating mode, a call on an object with the
  explicit empty configuration \<open>{}\<close> is a stable-mode call. Given fuel above the size of
  the heap it returns; what it returns is what the call without a configuration returns
  under a global stable mode; it leaves the collision counters and the global
  configuration as they were; and for a non-empty object it stores the identifier in
  the identity cache, and answers from that cache, changing nothing, when the object is
  cached.
\<close>

theorem empty_config_is_stable_mode:
  assumes "newIdOnCollision (globalConfig st) = Some True"
    and "length h < fuel"
  shows "\<exists>i st'.
      generateStructureId xxHash32 h fuel (JRef a) (Some \<lparr>newIdOnCollision = None\<rparr>) st
        = Some (i, st')
    \<and> generateStructureId xxHash32 h fuel (JRef a) None
          (st\<lparr>globalConfig := \<lparr>newIdOnCollision = Some False\<rparr>\<rparr>)
        = Some (i, st'\<lparr>globalConfig := \<lparr>newIdOnCollision = Some False\<rparr>\<rparr>)
    \<and> STRUCTURE_HASH_COUNTER st' = STRUCTURE_HASH_COUNTER st
    \<and> globalConfig st' = globalConfig st
    \<and> (\<not> emptyContainer h a \<longrightarrow>
         OBJECT_ID_CACHE st' a = Some i \<and>
         (\<forall>c. OBJECT_ID_CACHE st a = Some c \<longrightarrow> i = c \<and> st' = st))"
proof -
  let ?empty = "Some \<lparr>newIdOnCollision = None\<rparr>"
  let ?stable = "st\<lparr>globalConfig := \<lparr>newIdOnCollision = Some False\<rparr>\<rparr>"
  from generateStructureId_total [OF assms(2)] obtain i st' where
    g: "generateStructureId xxHash32 h fuel (JRef a) ?empty st = Some (i, st')"
    by blast
  note eq = empty_config_equation [OF assms(1), of xxHash32 h fuel a]
  from eq g obtain s0 where
    g0: "generateStructureId xxHash32 h fuel (JRef a) None ?stable = Some (i, s0)"
    and st': "st' = s0\<lparr>globalConfig := globalConfig st\<rparr>"
    by (cases "generateStructureId xxHash32 h fuel (JRef a) None ?stable") auto
  from generateStructureId_config [OF g0]
  have c0: "globalConfig s0 = \<lparr>newIdOnCollision = Some False\<rparr>" by simp
  have "st'\<lparr>globalConfig := \<lparr>newIdOnCollision = Some False\<rparr>\<rparr> = s0"
    unfolding st' using c0 by simp
  with g0 have stable: "generateStructureId xxHash32 h fuel (JRef a) None ?stable
      = Some (i, st'\<lparr>globalConfig := \<lparr>newIdOnCollision = Some False\<rparr>\<rparr>)" by simp
  from eq g have rest: "STRUCTURE_HASH_COUNTER st' = STRUCTURE_HASH_COUNTER st \<and>
      (\<not> emptyContainer h a \<longrightarrow>
         OBJECT_ID_CACHE st' a = Some i \<and>
         (\<forall>c. OBJECT_ID_CACHE st a = Some c \<longrightarrow> i = c \<and> st' = st))"
    by blast
  from generateStructureId_config [OF g] have "globalConfig st' = globalConfig st" .
  with g stable rest show ?thesis by blast
qed

theorem empty_config_is_stable_mode_witness:
  "newIdOnCollision (globalConfig (initialState\<lparr>globalConfig := \<lparr>newIdOnCollision = Some True\<rparr>\<rparr>))
     = Some True
   \<and> length oneKeyHeap < 2
   \<and> (\<exists>i st'.
        generateStructureId xxZero oneKeyHeap 2 (JRef 0) (Some \<lparr>newIdOnCollision = None\<rparr>)
          (initialState\<lparr>globalConfig := \<lparr>newIdOnCollision = Some True\<rparr>\<rparr>) = Some (i, st')
      \<and> generateStructureId xxZero oneKeyHeap 2 (JRef 0) None initialState
          = Some (i, st'\<lparr>globalConfig := \<lparr>newIdOnCollision = Some False\<rparr>\<rparr>)
      \<and> STRUCTURE_HASH_COUNTER st' = []
      \<and> OBJECT_ID_CACHE st' 0 = Some i)"
proof -
  have ne: "\<not> emptyContainer oneKeyHeap 0"
    by (simp add: emptyContainer_def deref_def oneKeyHeap_def)
  have l: "length oneKeyHeap < 2" by (simp add: oneKeyHeap_def)
  have s: "(initialState\<lparr>globalConfig := \<lparr>newIdOnCollision = Some True\<rparr>\<rparr>)
      \<lparr>globalConfig := \<lparr>newIdOnCollision = Some False\<rparr>\<rparr> = (initialState :: state)"
    by (simp add: initialState_def)
  from empty_config_is_stable_mode [of "initialState\<lparr>globalConfig := \<lparr>newIdOnCollision = Some True\<rparr>\<rparr>"
      oneKeyHeap 2 xxZero 0, OF _ l] ne l
  show ?thesis unfolding s by (auto simp: initialState_def)
qed

section \<open>The round trip of a key bit through its decimal text\<close>

lemma string_of_nat_units:
  "u \<in> set (utf16_of (string_of_nat n)) \<Longrightarrow> 48 \<le> unat u \<and> unat u \<le> 57"
proof -
  assume "u \<in> set (utf16_of (string_of_nat n))"
  then obtain c where c: "c \<in> set (string_of_nat n)" and u: "u = of_char c"
    by (auto simp: utf16_of_def)
  from string_of_nat_chars [OF c] obtain d where "d < 10" "c = digit_char d" by blast
  then show ?thesis by (simp add: u unat_of_char digit_char_code)
qed

lemma trim_id:
  assumes "s \<noteq> []" "\<not> isWhiteSpace (hd s)" "\<not> isWhiteSpace (last s)"
  shows "trim s = s"
proof -
  from assms have "dropWhile isWhiteSpace s = s" by (cases s) simp_all
  moreover from assms have "dropWhile isWhiteSpace (rev s) = rev s"
    by (cases "rev s") (simp_all add: hd_rev [symmetric])
  ultimately show ?thesis by (simp add: trim_def)
qed

lemma digit_unit_facts:
  assumes "48 \<le> unat (u :: 16 word) \<and> unat u \<le> 57"
  shows "\<not> isWhiteSpace u" "u \<noteq> of_char CHR ''-''" "u \<noteq> of_char CHR ''+''"
    "u \<notin> of_char ` {CHR ''x'', CHR ''X'', CHR ''o'', CHR ''O'', CHR ''b'', CHR ''B''}"
  using assms by (auto simp: isWhiteSpace_def)

lemma prefix_free:
  assumes "\<forall>u \<in> set (tl s). 48 \<le> unat (u :: 16 word) \<and> unat u \<le> 57"
  shows "take 2 s \<notin> {utf16_of ''0x'', utf16_of ''0X'', utf16_of ''0o'', utf16_of ''0O'',
           utf16_of ''0b'', utf16_of ''0B''}"
proof (cases s)
  case Nil
  then show ?thesis by (simp add: utf16_of_def)
next
  case (Cons a t)
  show ?thesis
  proof (cases t)
    case Nil
    with Cons show ?thesis by (simp add: utf16_of_def)
  next
    case (Cons b u)
    with assms \<open>s = a # t\<close> have "48 \<le> unat b \<and> unat b \<le> 57" by simp
    from digit_unit_facts(4) [OF this] Cons \<open>s = a # t\<close> show ?thesis
      by (auto simp: utf16_of_def)
  qed
qed

lemma BigInt_of_string_nat: "BigInt_of_string (utf16_of (string_of_nat n)) = Some (int n)"
proof -
  let ?s = "utf16_of (string_of_nat n)"
  have ne: "?s \<noteq> []" using string_of_nat_nonempty [of n] by (simp add: utf16_of_def)
  then have hd: "hd ?s \<in> set ?s" and last: "last ?s \<in> set ?s" by simp_all
  note d = string_of_nat_units [of _ n]
  have t: "trim ?s = ?s"
    by (rule trim_id [OF ne digit_unit_facts(1) [OF d [OF hd]] digit_unit_facts(1) [OF d [OF last]]])
  have p: "take 2 ?s \<notin> {utf16_of ''0x'', utf16_of ''0X'', utf16_of ''0o'', utf16_of ''0O'',
           utf16_of ''0b'', utf16_of ''0B''}"
    by (rule prefix_free) (use ne d in \<open>auto dest: list.set_sel(2)\<close>)
  have "hd ?s \<noteq> of_char CHR ''-''" "hd ?s \<noteq> of_char CHR ''+''"
    using digit_unit_facts(2,3) [OF d [OF hd]] by simp_all
  with t p ne show ?thesis
    unfolding BigInt_of_string_def Let_def
    by (simp add: parseLiteral_def parseDigits_string_of_nat)
qed

lemma BigInt_of_string_toString: "BigInt_of_string (utf16_of (bigint_toString i)) = Some i"
proof (cases "i < 0")
  case False
  then show ?thesis by (simp add: bigint_toString_def BigInt_of_string_nat)
next
  case True
  let ?d = "utf16_of (string_of_nat (nat (- i)))"
  let ?s = "of_char CHR ''-'' # ?d"
  have s: "utf16_of (bigint_toString i) = ?s"
    using True by (simp add: bigint_toString_def utf16_of_def)
  have ne: "?d \<noteq> []" using string_of_nat_nonempty [of "nat (- i)"] by (simp add: utf16_of_def)
  then have last: "last ?s \<in> set ?d" by simp
  note d = string_of_nat_units [of _ "nat (- i)"]
  have "\<not> isWhiteSpace (of_char CHR ''-'')" by (simp add: isWhiteSpace_def)
  then have t: "trim ?s = ?s"
    using digit_unit_facts(1) [OF d [OF last]] by (intro trim_id) simp_all
  have p: "take 2 ?s \<notin> {utf16_of ''0x'', utf16_of ''0X'', utf16_of ''0o'', utf16_of ''0O'',
           utf16_of ''0b'', utf16_of ''0B''}"
    by (rule prefix_free) (use d in auto)
  from True show ?thesis
    unfolding s BigInt_of_string_def Let_def t
    using p ne by (simp add: parseLiteral_def parseDigits_string_of_nat)
qed

section \<open>What an exported object holds\<close>

lemma insertIndex_keys:
  "fst ` set (insertIndex n key v obj) = insert key (fst ` set obj)"
  by (induction n key v obj rule: insertIndex.induct) (auto split: option.splits)

lemma insertIndex_distinct:
  "key \<notin> fst ` set obj \<Longrightarrow> distinct (map fst obj) \<Longrightarrow>
   distinct (map fst (insertIndex n key v obj))"
proof (induction n key v obj rule: insertIndex.induct)
  case (1 n key v)
  then show ?case by simp
next
  case (2 n key v k w rest)
  then show ?case
    using insertIndex_keys [of n key v rest]
    by (auto split: option.splits)
qed

lemma insertIndex_map_of:
  "key \<notin> fst ` set obj \<Longrightarrow> map_of (insertIndex n key v obj) = (map_of obj)(key \<mapsto> v)"
proof (induction n key v obj rule: insertIndex.induct)
  case (1 n key v)
  then show ?case by simp
next
  case (2 n key v k w rest)
  then have "k \<noteq> key" by auto
  with 2 show ?case by (auto split: option.splits simp: fun_upd_twist)
qed

lemma setProp_keys:
  "fst ` set (setProp key v obj) =
     (if key = ''__proto__'' then fst ` set obj else insert key (fst ` set obj))"
  by (auto simp: setProp_def insertIndex_keys dom_update [unfolded dom_map_of_conv_image_fst]
      split: option.splits)

lemma setProp_distinct:
  "distinct (map fst obj) \<Longrightarrow> distinct (map fst (setProp key v obj))"
  by (auto simp: setProp_def distinct_update insertIndex_distinct split: option.splits)

lemma setProp_map_of:
  "map_of (setProp key v obj) =
     (if key = ''__proto__'' then map_of obj else (map_of obj)(key \<mapsto> v))"
proof -
  have "map_of (obj @ [(key, v)]) = (map_of obj)(key \<mapsto> v)" if "key \<notin> fst ` set obj"
  proof -
    from that have n: "map_of obj key = None" by (simp add: map_of_eq_None_iff)
    show ?thesis
      by (rule ext) (simp add: map_add_def n split: option.splits del: map_of_eq_None_iff)
  qed
  then show ?thesis
    by (auto simp: setProp_def update_conv' insertIndex_map_of split: option.splits)
qed

lemma export_fold:
  "distinct (map fst acc) \<Longrightarrow>
   distinct (map fst (foldl (\<lambda>obj (k, v). setProp k (g v) obj) acc km)) \<and>
   map_of (foldl (\<lambda>obj (k, v). setProp k (g v) obj) acc km) key =
     (case map_of (rev km) key of
        None \<Rightarrow> map_of acc key
      | Some v \<Rightarrow> if key = ''__proto__'' then map_of acc key else Some (g v))"
proof (induction km arbitrary: acc)
  case Nil
  then show ?case by simp
next
  case (Cons kv km)
  obtain k v where kv: "kv = (k, v)" by (cases kv)
  from Cons.prems have d: "distinct (map fst (setProp k (g v) acc))" by (rule setProp_distinct)
  from Cons.IH [OF d] show ?case
    by (auto simp: kv setProp_map_of map_add_def split: option.splits)
qed

lemma map_of_rev_distinct: "distinct (map fst xs) \<Longrightarrow> map_of (rev xs) = map_of xs"
proof (induction xs)
  case Nil
  then show ?case by simp
next
  case (Cons x xs)
  obtain k v where x: "x = (k, v)" by (cases x)
  from Cons.prems have n: "map_of xs k = None" by (simp add: x map_of_eq_None_iff)
  from Cons have IH: "map_of (rev xs) = map_of xs" by simp
  show ?case
    by (rule ext) (simp add: x IH map_add_def n split: option.splits del: map_of_eq_None_iff)
qed

lemma export_fold_proto:
  "''__proto__'' \<notin> fst ` set acc \<Longrightarrow>
   ''__proto__'' \<notin> fst ` set (foldl (\<lambda>obj (k, v). setProp k (g v) obj) acc km)"
proof (induction km arbitrary: acc)
  case Nil
  then show ?case by simp
next
  case (Cons kv km)
  obtain k v where kv: "kv = (k, v)" by (cases kv)
  from Cons.prems have "''__proto__'' \<notin> fst ` set (setProp k (g v) acc)"
    by (simp add: setProp_keys)
  from Cons.IH [OF this] show ?case by (simp add: kv)
qed

lemma exported_keyMap:
  assumes "distinct (map fst (GLOBAL_KEY_MAP st))"
  shows "distinct (map fst (keyMap (exportStructureState st)))"
    and "map_of (keyMap (exportStructureState st)) key =
          (if key = ''__proto__'' then None
           else map_option (\<lambda>b. utf16_of (bigint_toString b)) (map_of (GLOBAL_KEY_MAP st) key))"
    and "''__proto__'' \<notin> fst ` set (keyMap (exportStructureState st))"
proof -
  note f = export_fold [of "[]" "\<lambda>b. utf16_of (bigint_toString b)" "GLOBAL_KEY_MAP st" key]
  from f show "distinct (map fst (keyMap (exportStructureState st)))"
    by (simp add: exportStructureState_def)
  from f show "map_of (keyMap (exportStructureState st)) key =
          (if key = ''__proto__'' then None
           else map_option (\<lambda>b. utf16_of (bigint_toString b)) (map_of (GLOBAL_KEY_MAP st) key))"
    by (simp add: exportStructureState_def map_of_rev_distinct [OF assms] split: option.splits)
  from export_fold_proto [of "[]" "\<lambda>b. utf16_of (bigint_toString b)" "GLOBAL_KEY_MAP st"]
  show "''__proto__'' \<notin> fst ` set (keyMap (exportStructureState st))"
    by (simp add: exportStructureState_def)
qed

lemma exported_counters:
  assumes "distinct (map fst (STRUCTURE_HASH_COUNTER st))"
  shows "distinct (map fst (collisionCounters (exportStructureState st)))"
    and "map_of (collisionCounters (exportStructureState st)) key =
          (if key = ''__proto__'' then None else map_of (STRUCTURE_HASH_COUNTER st) key)"
proof -
  note f = export_fold [of "[]" "\<lambda>c. c" "STRUCTURE_HASH_COUNTER st" key]
  from f show "distinct (map fst (collisionCounters (exportStructureState st)))"
    by (simp add: exportStructureState_def)
  from f show "map_of (collisionCounters (exportStructureState st)) key =
          (if key = ''__proto__'' then None else map_of (STRUCTURE_HASH_COUNTER st) key)"
    by (simp add: exportStructureState_def map_of_rev_distinct [OF assms] split: option.splits)
qed

lemma importKeyMap_map_of:
  "distinct (map fst E) \<Longrightarrow> \<forall>kv \<in> set E. BigInt_of_string (snd kv) \<noteq> None \<Longrightarrow>
   \<exists>st'. importKeyMap E st = (Inr (), st') \<and>
     (\<forall>k. map_of (GLOBAL_KEY_MAP st') k =
        (case map_of E k of None \<Rightarrow> map_of (GLOBAL_KEY_MAP st) k
                          | Some s \<Rightarrow> BigInt_of_string s))"
proof (induction E st rule: importKeyMap.induct)
  case (1 st)
  then show ?case by simp
next
  case (2 key valueStr rest st)
  from "2.prems" obtain b where b: "BigInt_of_string valueStr = Some b" by auto
  let ?st = "st\<lparr>GLOBAL_KEY_MAP := AList.update key b (GLOBAL_KEY_MAP st)\<rparr>"
  from "2.prems" have "distinct (map fst rest)"
    "\<forall>kv \<in> set rest. BigInt_of_string (snd kv) \<noteq> None" by simp_all
  from "2.IH" [OF b this] obtain st' where
    run: "importKeyMap rest ?st = (Inr (), st')"
    and m: "\<And>k. map_of (GLOBAL_KEY_MAP st') k =
        (case map_of rest k of None \<Rightarrow> map_of (GLOBAL_KEY_MAP ?st) k
                             | Some s \<Rightarrow> BigInt_of_string s)"
    by blast
  from "2.prems" have n: "map_of rest key = None" by (simp add: map_of_eq_None_iff)
  have "map_of (GLOBAL_KEY_MAP st') k =
        (case map_of ((key, valueStr) # rest) k of None \<Rightarrow> map_of (GLOBAL_KEY_MAP st) k
                             | Some s \<Rightarrow> BigInt_of_string s)" for k
    by (cases "k = key")
       (simp_all add: m n b update_conv' del: map_of_eq_None_iff split: option.splits)
  with run b show ?case by simp
qed

lemma round_trip_state:
  assumes dk: "distinct (map fst (GLOBAL_KEY_MAP st))"
    and dc: "distinct (map fst (STRUCTURE_HASH_COUNTER st))"
  shows "\<exists>st2. importStructureState (exportStructureState st) st = (Inr (), st2) \<and>
     (\<forall>k. map_of (GLOBAL_KEY_MAP st2) k =
        (if k = ''__proto__'' then None else map_of (GLOBAL_KEY_MAP st) k)) \<and>
     (\<forall>s. map_of (STRUCTURE_HASH_COUNTER st2) s =
        (if s = ''__proto__'' then None else map_of (STRUCTURE_HASH_COUNTER st) s)) \<and>
     globalConfig st2 = globalConfig st"
proof -
  let ?E = "keyMap (exportStructureState st)"
  let ?C = "collisionCounters (exportStructureState st)"
  note ek = exported_keyMap [OF dk]
  note ec = exported_counters [OF dc]
  have parse: "\<forall>kv \<in> set ?E. BigInt_of_string (snd kv) \<noteq> None"
  proof
    fix kv assume "kv \<in> set ?E"
    then have "map_of ?E (fst kv) = Some (snd kv)" using ek(1) by simp
    with ek(2) [of "fst kv"] obtain b where "snd kv = utf16_of (bigint_toString b)"
      by (cases "map_of (GLOBAL_KEY_MAP st) (fst kv)") (auto split: if_splits)
    then show "BigInt_of_string (snd kv) \<noteq> None" by (simp add: BigInt_of_string_toString)
  qed
  from importKeyMap_map_of [OF ek(1) parse, of "resetState st"] obtain st1 where
    run: "importKeyMap ?E (resetState st) = (Inr (), st1)"
    and m: "\<And>k. map_of (GLOBAL_KEY_MAP st1) k =
        (case map_of ?E k of None \<Rightarrow> map_of (GLOBAL_KEY_MAP (resetState st)) k
                           | Some s \<Rightarrow> BigInt_of_string s)"
    by blast
  have "\<forall>s \<in> set (map snd ?E). BigInt_of_string s \<noteq> None" using parse by auto
  from maxBitLoop_succeeds [OF this] obtain mb where
    mb: "maxBitLoop (map snd ?E) 0 = Inr mb" by blast
  let ?st2 = "importCounters ?C st1"
  have imp: "importStructureState (exportStructureState st) st = (Inr (), ?st2)"
    using run mb by (simp add: importStructureState_def)
  have keys: "map_of (GLOBAL_KEY_MAP ?st2) k =
        (if k = ''__proto__'' then None else map_of (GLOBAL_KEY_MAP st) k)" for k
    using importCounters_frame [of ?C st1] m [of k] ek(2) [of k]
    by (auto simp: resetState_def BigInt_of_string_toString split: option.splits)
  have "STRUCTURE_HASH_COUNTER st1 = []"
    using importKeyMap_frame [OF run] by (simp add: resetState_def)
  then have cs: "map_of (STRUCTURE_HASH_COUNTER ?st2) s =
        (if s = ''__proto__'' then None else map_of (STRUCTURE_HASH_COUNTER st) s)" for s
    using ec(2) [of s] by (simp add: importCounters_map_of map_of_rev_distinct [OF ec(1)])
  have "globalConfig ?st2 = globalConfig st"
    using importCounters_frame [of ?C st1] importKeyMap_frame [OF run]
    by (simp add: resetState_def)
  with imp keys cs show ?thesis by blast
qed

text \<open>Array-index keys come first in an exported object, and \<open>__proto__\<close> is not stored.\<close>

lemma arrayIndex_examples:
  "arrayIndex ''9'' = Some 9" "arrayIndex ''10'' = Some 10" "arrayIndex ''b'' = None"
  "arrayIndex ''01'' = None" "arrayIndex ''4294967295'' = None"
  by (simp_all add: arrayIndex_def parseLiteral_def utf16_of_def digitVal_def
      string_of_nat.simps digit_char_def)

lemma exportStructureState_order:
  "keyMap (exportStructureState
      (initialState\<lparr>GLOBAL_KEY_MAP := [(''b'', 1), (''10'', 2), (''__proto__'', 4), (''9'', 3)]\<rparr>))
     = [(''9'', utf16_of ''3''), (''10'', utf16_of ''2''), (''b'', utf16_of ''1'')]"
  by (simp add: exportStructureState_def setProp_def arrayIndex_examples
      bigint_toString_def string_of_nat.simps digit_char_def)

section \<open>The round trip of the naming state\<close>

lemma map_of_filter_keys:
  "map_of (filter (\<lambda>p. fst p \<in> K) km) k = (if k \<in> K then map_of km k else None)"
  by (induction km) auto

lemma bitOf_filter_keys:
  "k \<in> K \<Longrightarrow> bitOf xx (filter (\<lambda>p. fst p \<in> K) km) k = bitOf xx km k"
  by (simp add: bitOf_def map_of_filter_keys)

lemma processStructure_used_agree:
  assumes run0: "processStructure xx h n v level path (t\<lparr>keyBits := []\<rparr>) = Some t0"
    and run1: "processStructure xx h n v level path t = Some t1"
    and agree: "\<forall>k \<in> fst ` set (keyBits t0). bitOf xx (keyBits t) k = bitOf xx km k"
  shows "\<exists>t2. processStructure xx h n v level path (t\<lparr>keyBits := km\<rparr>) = Some t2 \<and>
           levelHashes t2 = levelHashes t1"
proof -
  let ?K = "fst ` set (keyBits t0)"
  let ?km0 = "filter (\<lambda>p. fst p \<in> ?K) (keyBits t)"
  let ?ta = "t\<lparr>keyBits := ?km0\<rparr>"
  from processStructure_keys [OF run0, of ?ta] obtain ra where
    ra: "processStructure xx h n v level path ?ta = Some ra"
    and keys: "fst ` set (keyBits ra) = fst ` set (keyBits ?ta) \<union> ?K"
    by auto
  have sub: "fst ` set (keyBits ra) \<subseteq> ?K" unfolding keys by auto
  have a1: "\<forall>k \<in> fst ` set (keyBits ra). bitOf xx (keyBits ?ta) k = bitOf xx (keyBits t) k"
  proof
    fix k assume "k \<in> fst ` set (keyBits ra)"
    with sub have "k \<in> ?K" by blast
    then show "bitOf xx (keyBits ?ta) k = bitOf xx (keyBits t) k"
      by (simp add: bitOf_filter_keys)
  qed
  from processStructure_key_agree [OF ra a1] run1
  have l1: "levelHashes t1 = levelHashes ra" by auto
  have a2: "\<forall>k \<in> fst ` set (keyBits ra).
      bitOf xx (keyBits ?ta) k = bitOf xx (keyBits (t\<lparr>keyBits := km\<rparr>)) k"
  proof
    fix k assume "k \<in> fst ` set (keyBits ra)"
    with sub have k: "k \<in> ?K" by blast
    with agree have "bitOf xx (keyBits t) k = bitOf xx km k" by blast
    with k show "bitOf xx (keyBits ?ta) k = bitOf xx (keyBits (t\<lparr>keyBits := km\<rparr>)) k"
      by (simp add: bitOf_filter_keys)
  qed
  from processStructure_key_agree [OF ra a2] obtain t2 where
    "processStructure xx h n v level path (t\<lparr>keyBits := km\<rparr>) = Some t2"
    "levelHashes t2 = levelHashes ra"
    by auto
  with l1 show ?thesis by simp
qed

lemma signatureOf_not_proto: "signatureOf lh \<noteq> ''__proto__''"
proof (cases "filter (\<lambda>e. fst e > 0) (entries lh)")
  case Nil
  then show ?thesis by (simp add: signatureOf_def)
next
  case (Cons e es)
  have "hd (join ''-'' (levelPart e # map levelPart es)) = CHR ''L''"
    by (cases es) (simp_all add: levelPart_def)
  then show ?thesis by (auto simp: signatureOf_def Cons)
qed

lemma generateStructureId_bitOf:
  assumes "generateStructureId xx h fuel obj config st = Some (i, st')"
  shows "bitOf xx (GLOBAL_KEY_MAP st') = bitOf xx (GLOBAL_KEY_MAP st)"
proof (cases "\<exists>a. obj = JRef a \<and> \<not> emptyContainer h a")
  case False
  with assms show ?thesis
    by (cases "\<exists>a. obj = JRef a")
       (auto simp: generateStructureId_nonref generateStructureId_empty)
next
  case True
  then obtain a where obj: "obj = JRef a" and ne: "\<not> emptyContainer h a" by blast
  show ?thesis
  proof (cases "\<not> effective config st \<and> OBJECT_ID_CACHE st a \<noteq> None")
    case True
    with assms show ?thesis by (simp add: obj generateStructureId_ref [OF ne])
  next
    case False
    with assms obtain t where
      t: "processStructure xx h fuel (JRef a) 0 [] (startTraversal st) = Some t"
      and f: "finish a (effective config st) st t = (i, st')"
      unfolding obj generateStructureId_ref [OF ne] by auto
    from f have "GLOBAL_KEY_MAP st' = keyBits t"
      using finish_fields(1) [of a "effective config st" st t] by simp
    with processStructure_bitOf [OF t] show ?thesis by simp
  qed
qed

lemma generateStructureId_counter:
  assumes ne: "\<not> emptyContainer h a"
    and run: "processStructure xx h fuel (JRef a) 0 [] (startTraversal st) = Some t"
    and g: "generateStructureId xx h fuel (JRef a) config st = Some (i, st')"
  shows "STRUCTURE_HASH_COUNTER st' =
           (if effective config st
            then AList.update (signatureOf (levelHashes t))
                   (counterOf (STRUCTURE_HASH_COUNTER st) (signatureOf (levelHashes t)) + 1)
                   (STRUCTURE_HASH_COUNTER st)
            else STRUCTURE_HASH_COUNTER st)"
proof (cases "effective config st")
  case False
  with generateStructureId_stable_counter [OF False g] show ?thesis by simp
next
  case True
  with g run have "finish a True st t = (i, st')"
    by (simp add: generateStructureId_ref [OF ne])
  then have "STRUCTURE_HASH_COUNTER st' = STRUCTURE_HASH_COUNTER (snd (finish a True st t))"
    by simp
  with True show ?thesis by (simp add: finish_fields(6))
qed

lemma counterOf_update_other:
  "s \<noteq> s' \<Longrightarrow> counterOf (AList.update s' c cs) s = counterOf cs s"
  by (simp add: counterOf_def update_conv')

lemma sameNaming_effective:
  "sameNaming xx st st' \<Longrightarrow> effective config st' = effective config st"
  by (simp add: sameNaming_def effective_def split: option.splits)

lemma related_step:
  assumes inv: "stateInvariant xx h st" and inv': "stateInvariant xx h st'"
    and rel: "sameNaming xx st st'"
    and fuel: "length h < fuel"
    and keys: "''__proto__'' \<notin> usedKeys xx h fuel v"
  shows "\<exists>i s1 s1'. generateStructureId xx h fuel v config st = Some (i, s1) \<and>
           generateStructureId xx h fuel v config st' = Some (i, s1') \<and>
           sameNaming xx s1 s1' \<and> stateInvariant xx h s1 \<and> stateInvariant xx h s1'"
proof -
  from generateStructureId_total [OF fuel] obtain i s1 where
    g: "generateStructureId xx h fuel v config st = Some (i, s1)" by blast
  from generateStructureId_total [OF fuel] obtain i' s1' where
    g': "generateStructureId xx h fuel v config st' = Some (i', s1')" by blast
  note i1 = generateStructureId_invariant [OF inv g]
  note i1' = generateStructureId_invariant [OF inv' g']
  have eff: "effective config st' = effective config st"
    by (rule sameNaming_effective [OF rel])
  have bits: "\<forall>k. k \<noteq> ''__proto__'' \<longrightarrow>
        bitOf xx (GLOBAL_KEY_MAP s1') k = bitOf xx (GLOBAL_KEY_MAP s1) k"
    using rel generateStructureId_bitOf [OF g] generateStructureId_bitOf [OF g']
    by (simp add: sameNaming_def)
  have cfg: "globalConfig s1' = globalConfig s1"
    using rel generateStructureId_config [OF g] generateStructureId_config [OF g']
    by (simp add: sameNaming_def)
  have "i' = i \<and> (\<forall>s. s \<noteq> ''__proto__'' \<longrightarrow>
        counterOf (STRUCTURE_HASH_COUNTER s1') s = counterOf (STRUCTURE_HASH_COUNTER s1) s)"
  proof (cases "\<exists>a. v = JRef a \<and> \<not> emptyContainer h a")
    case False
    with g g' rel show ?thesis
      by (cases "\<exists>a. v = JRef a")
         (auto simp: generateStructureId_nonref generateStructureId_empty sameNaming_def)
  next
    case True
    then obtain a where v: "v = JRef a" and ne: "\<not> emptyContainer h a" by blast
    have tot: "\<exists>t'. processStructure xx h fuel (JRef a) 0 [] t = Some t'"
      if "objectMap t = Map.empty" for t
      by (rule processStructure_total) (simp add: that fuel)
    from tot [of "startTraversal st"] obtain t1 where
      t1: "processStructure xx h fuel (JRef a) 0 [] (startTraversal st) = Some t1" by auto
    from tot [of "(startTraversal st)\<lparr>keyBits := []\<rparr>"] obtain t0 where
      t0: "processStructure xx h fuel (JRef a) 0 [] ((startTraversal st)\<lparr>keyBits := []\<rparr>)
            = Some t0" by auto
    have s0: "(startTraversal st)\<lparr>keyBits := []\<rparr> =
        \<lparr>levelHashes = [], objectMap = Map.empty, keyBits = []\<rparr>"
      by (simp add: startTraversal_def)
    from t0 have used: "usedKeys xx h fuel v = fst ` set (keyBits t0)"
      by (simp add: usedKeys_def v s0)
    have agree: "\<forall>k \<in> fst ` set (keyBits t0).
        bitOf xx (keyBits (startTraversal st)) k = bitOf xx (GLOBAL_KEY_MAP st') k"
    proof
      fix k assume k: "k \<in> fst ` set (keyBits t0)"
      with keys have "k \<noteq> ''__proto__''" unfolding used by blast
      with rel show "bitOf xx (keyBits (startTraversal st)) k = bitOf xx (GLOBAL_KEY_MAP st') k"
        by (simp add: sameNaming_def)
    qed
    have s': "(startTraversal st)\<lparr>keyBits := GLOBAL_KEY_MAP st'\<rparr> = startTraversal st'"
      by (simp add: startTraversal_def)
    from processStructure_used_agree [OF t0 t1 agree] obtain t1' where
      t1': "processStructure xx h fuel (JRef a) 0 [] (startTraversal st') = Some t1'"
      and lh: "levelHashes t1' = levelHashes t1"
      unfolding s' by blast
    let ?sig = "signatureOf (levelHashes t1)"
    have c: "counterOf (STRUCTURE_HASH_COUNTER st') ?sig = counterOf (STRUCTURE_HASH_COUNTER st) ?sig"
      using rel signatureOf_not_proto [of "levelHashes t1"] by (simp add: sameNaming_def)
    from generateStructureId_value [OF inv ne t1, of config]
      generateStructureId_value [OF inv' ne t1', of config] g g'
    have ids: "i' = i" by (auto simp: v lh c eff)
    note c1 = generateStructureId_counter [OF ne t1 g [unfolded v]]
    note c1' = generateStructureId_counter [OF ne t1' g' [unfolded v]]
    have "counterOf (STRUCTURE_HASH_COUNTER s1') s = counterOf (STRUCTURE_HASH_COUNTER s1) s"
      if "s \<noteq> ''__proto__''" for s
    proof (cases "effective config st")
      case False
      with c1 c1' eff rel that show ?thesis by (simp add: sameNaming_def)
    next
      case True
      show ?thesis
      proof (cases "s = ?sig")
        case True
        with c1 c1' eff c \<open>effective config st\<close> show ?thesis by (simp add: lh)
      next
        case False
        with c1 c1' eff rel that \<open>effective config st\<close> show ?thesis
          by (simp add: lh counterOf_update_other sameNaming_def)
      qed
    qed
    with ids show ?thesis by blast
  qed
  with g g' bits cfg i1 i1' show ?thesis unfolding sameNaming_def by blast
qed

lemma related_sequence:
  assumes fuel: "length h < fuel"
  shows "stateInvariant xx h st \<Longrightarrow> stateInvariant xx h st' \<Longrightarrow> sameNaming xx st st' \<Longrightarrow>
         \<forall>v \<in> set vs. ''__proto__'' \<notin> usedKeys xx h fuel v \<Longrightarrow>
         \<exists>ids s1 s1'. successiveIds xx h fuel vs config st = Some (ids, s1) \<and>
           successiveIds xx h fuel vs config st' = Some (ids, s1')"
proof (induction vs arbitrary: st st')
  case Nil
  then show ?case by simp
next
  case (Cons v vs)
  from Cons.prems(4) have k: "''__proto__'' \<notin> usedKeys xx h fuel v" by simp
  from related_step [OF Cons.prems(1,2,3) fuel k, of config] obtain i s1 s1' where
    g: "generateStructureId xx h fuel v config st = Some (i, s1)"
    and g': "generateStructureId xx h fuel v config st' = Some (i, s1')"
    and rel: "sameNaming xx s1 s1'"
    and inv: "stateInvariant xx h s1" "stateInvariant xx h s1'"
    by blast
  from Cons.prems(4) have "\<forall>v \<in> set vs. ''__proto__'' \<notin> usedKeys xx h fuel v" by simp
  from Cons.IH [OF inv rel this] obtain ids u u' where
    "successiveIds xx h fuel vs config s1 = Some (ids, u)"
    "successiveIds xx h fuel vs config s1' = Some (ids, u')"
    by blast
  with g g' show ?case by simp
qed

lemma cachedState_maps:
  "GLOBAL_KEY_MAP cachedState = [(''type:object'', 0), (''a'', 0)]"
  "STRUCTURE_HASH_COUNTER cachedState = []"
  by code_simp+

lemma cachedState_reachable: "reachable xxZero oneKeyHeap cachedState"
proof -
  have "length oneKeyHeap < 2" by (simp add: oneKeyHeap_def)
  from generateStructureId_total [OF this, of xxZero "JRef 0" None initialState]
  obtain i st' where
    g: "generateStructureId xxZero oneKeyHeap 2 (JRef 0) None initialState = Some (i, st')"
    by blast
  then have "cachedState = st'" by (simp add: cachedState_def)
  with reachable.generate [OF reachable.initial g] show ?thesis by simp
qed

lemma cachedState_export:
  "exportStructureState cachedState =
     \<lparr>keyMap = [(''type:object'', utf16_of ''0''), (''a'', utf16_of ''0'')],
      collisionCounters = []\<rparr>"
  by (simp add: exportStructureState_def cachedState_maps setProp_def arrayIndex_def
      parseLiteral_def utf16_of_def digitVal_def bigint_toString_def string_of_small)

lemma cachedState_import:
  "importStructureState (exportStructureState cachedState) cachedState =
     (Inr (), (resetState cachedState)\<lparr>GLOBAL_KEY_MAP := [(''type:object'', 0), (''a'', 0)]\<rparr>)"
proof -
  have "BigInt_of_string (utf16_of ''0'') = Some 0"
    using BigInt_of_string_toString [of 0] by (simp add: bigint_toString_def string_of_small)
  then show ?thesis
    by (simp add: cachedState_export importStructureState_def resetState_def)
qed

lemma cachedState_used:
  "usedKeys xxZero oneKeyHeap 2 (JRef 0) \<subseteq> {''type:object'', ''a''}"
  "usedKeys xxZero retypedHeap 2 (JRef 0) \<subseteq> {''type:object'', ''a''}"
  by code_simp+

lemma cachedState_ids:
  "map_option fst (generateStructureId xxZero retypedHeap 2 (JRef 0) None cachedState)
     = Some ''L0:130-L1:3''"
  "map_option fst (generateStructureId xxZero retypedHeap 2 (JRef 0) None
      ((resetState cachedState)\<lparr>GLOBAL_KEY_MAP := [(''type:object'', 0), (''a'', 0)]\<rparr>))
     = Some ''L0:131-L1:4''"
  by code_simp+


text \<open>
  C3, as the claim states it, fails for an object that was changed after its identifier
  had been cached. The state has the identifier of the record \<open>{a: 1}\<close> in its identity
  cache. The property then becomes a string, which uses no new key. Before the export
  and import a call on the record answers the cached \<open>L0:130-L1:3\<close>; the import replaces
  the identity caches by empty ones, and the same call afterwards computes
  \<open>L0:131-L1:4\<close>.
\<close>

theorem stale_cache_counterexample:
  "reachable xxZero oneKeyHeap cachedState
   \<and> map_option fst (generateStructureId xxZero retypedHeap 2 (JRef 0) None cachedState)
       = Some ''L0:130-L1:3''
   \<and> usedKeys xxZero retypedHeap 2 (JRef 0)
       \<subseteq> fst ` set (keyMap (exportStructureState cachedState))
   \<and> fst (importStructureState (exportStructureState cachedState) cachedState) = Inr ()
   \<and> map_option fst (generateStructureId xxZero retypedHeap 2 (JRef 0) None
        (snd (importStructureState (exportStructureState cachedState) cachedState)))
       = Some ''L0:131-L1:4''"
proof -
  have a: "fst (importStructureState (exportStructureState cachedState) cachedState) = Inr ()"
    by (simp only: cachedState_import fst_conv)
  have b: "snd (importStructureState (exportStructureState cachedState) cachedState) =
      (resetState cachedState)\<lparr>GLOBAL_KEY_MAP := [(''type:object'', 0), (''a'', 0)]\<rparr>"
    by (simp only: cachedState_import snd_conv)
  have u: "usedKeys xxZero retypedHeap 2 (JRef 0)
       \<subseteq> fst ` set (keyMap (exportStructureState cachedState))"
    unfolding cachedState_export using cachedState_used(2) by simp
  show ?thesis
    unfolding b by (intro conjI cachedState_reachable cachedState_ids u a)
qed

text \<open>
  C3, amended (export/import round trip). The object graph is not changed between the
  calls, and the state is one that calls on this graph have reached. Then
  \<open>importStructureState(exportStructureState())\<close> succeeds; the key bits and the collision
  counts are the ones before, except that a key \<open>__proto__\<close> is lost; and every sequence
  of \<open>generateStructureId\<close> calls that follows, under either configuration, on values
  whose traversal only asks for keys present in the exported map, returns the
  identifiers that the same sequence of calls would have returned without the export
  and import.
\<close>

theorem export_import_round_trip:
  assumes reach: "reachable xxHash32 h st"
    and fuel: "length h < fuel"
    and keys: "\<forall>v \<in> set vs. usedKeys xxHash32 h fuel v
                 \<subseteq> fst ` set (keyMap (exportStructureState st))"
  shows "\<exists>st2 ids s1 s2.
      importStructureState (exportStructureState st) st = (Inr (), st2)
    \<and> (\<forall>k. k \<noteq> ''__proto__'' \<longrightarrow>
          map_of (GLOBAL_KEY_MAP st2) k = map_of (GLOBAL_KEY_MAP st) k)
    \<and> (\<forall>s. s \<noteq> ''__proto__'' \<longrightarrow>
          map_of (STRUCTURE_HASH_COUNTER st2) s = map_of (STRUCTURE_HASH_COUNTER st) s)
    \<and> successiveIds xxHash32 h fuel vs config st = Some (ids, s1)
    \<and> successiveIds xxHash32 h fuel vs config st2 = Some (ids, s2)"
proof -
  from reachable_invariant [OF reach] have inv: "stateInvariant xxHash32 h st" .
  then have dk: "distinct (map fst (GLOBAL_KEY_MAP st))"
    and dc: "distinct (map fst (STRUCTURE_HASH_COUNTER st))"
    by (simp_all add: stateInvariant_def)
  from round_trip_state [OF dk dc] obtain st2 where
    imp: "importStructureState (exportStructureState st) st = (Inr (), st2)"
    and km: "\<And>k. map_of (GLOBAL_KEY_MAP st2) k =
        (if k = ''__proto__'' then None else map_of (GLOBAL_KEY_MAP st) k)"
    and cm: "\<And>s. map_of (STRUCTURE_HASH_COUNTER st2) s =
        (if s = ''__proto__'' then None else map_of (STRUCTURE_HASH_COUNTER st) s)"
    and cfg: "globalConfig st2 = globalConfig st"
    by blast
  from importStructureState_invariant [OF imp] have inv2: "stateInvariant xxHash32 h st2" .
  have rel: "sameNaming xxHash32 st st2"
    by (simp add: sameNaming_def bitOf_def counterOf_def km cm cfg)
  have used: "\<forall>v \<in> set vs. ''__proto__'' \<notin> usedKeys xxHash32 h fuel v"
    using keys exported_keyMap(3) [OF dk] by blast
  from related_sequence [OF fuel inv inv2 rel used, of config] obtain ids s1 s2 where
    "successiveIds xxHash32 h fuel vs config st = Some (ids, s1)"
    "successiveIds xxHash32 h fuel vs config st2 = Some (ids, s2)"
    by blast
  with imp km cm show ?thesis by simp
qed

theorem export_import_round_trip_witness:
  "reachable xxZero oneKeyHeap cachedState
   \<and> length oneKeyHeap < 2
   \<and> usedKeys xxZero oneKeyHeap 2 (JRef 0)
       \<subseteq> fst ` set (keyMap (exportStructureState cachedState))
   \<and> (\<exists>st2 ids s1 s2.
        importStructureState (exportStructureState cachedState) cachedState = (Inr (), st2)
      \<and> successiveIds xxZero oneKeyHeap 2 [JRef 0, JRef 0]
           (Some \<lparr>newIdOnCollision = Some True\<rparr>) cachedState = Some (ids, s1)
      \<and> successiveIds xxZero oneKeyHeap 2 [JRef 0, JRef 0]
           (Some \<lparr>newIdOnCollision = Some True\<rparr>) st2 = Some (ids, s2))"
proof -
  have l: "length oneKeyHeap < 2" by (simp add: oneKeyHeap_def)
  have u: "usedKeys xxZero oneKeyHeap 2 (JRef 0)
       \<subseteq> fst ` set (keyMap (exportStructureState cachedState))"
    using cachedState_used(1) by (simp add: cachedState_export)
  then have "\<forall>v \<in> set [JRef 0, JRef 0]. usedKeys xxZero oneKeyHeap 2 v
       \<subseteq> fst ` set (keyMap (exportStructureState cachedState))" by simp
  from export_import_round_trip [OF cachedState_reachable l this,
      of "Some \<lparr>newIdOnCollision = Some True\<rparr>"]
  have "\<exists>st2 ids s1 s2.
        importStructureState (exportStructureState cachedState) cachedState = (Inr (), st2)
      \<and> successiveIds xxZero oneKeyHeap 2 [JRef 0, JRef 0]
           (Some \<lparr>newIdOnCollision = Some True\<rparr>) cachedState = Some (ids, s1)
      \<and> successiveIds xxZero oneKeyHeap 2 [JRef 0, JRef 0]
           (Some \<lparr>newIdOnCollision = Some True\<rparr>) st2 = Some (ids, s2)"
    by (elim exE conjE) (intro exI conjI; assumption)
  then show ?thesis by (intro conjI cachedState_reachable l u)
qed

end
